theory Spec2Isabelle
  imports Complex_Main "HOL-Library.Product_Lexorder" "HOL-Library.Multiset"
begin

section \<open>md2png: the layout engine of \<open>src/md2png/__init__.py\<close>\<close>

text \<open>
  The development embeds \<open>ImageTreeprocessor\<close>: the tree walk that wraps text, tracks
  indentation and list numbering, applies the width-spec, allocates the canvas in chunks of
  \<open>IMAGE_BLOCK_HEIGHT\<close> and stitches the chunks together.

  External collaborators are parameters or abstract data:
  \<^item> the Markdown parser: the walk receives the element tree (type \<open>node\<close>);
  \<^item> PIL text measurement \<open>draw.textsize(text, font=font)\<close>: a parameter
    \<open>ts :: font \<Rightarrow> string \<Rightarrow> int \<times> int\<close>; font files and sizes only select that function's
    argument, so the font keys of the configuration are not part of \<open>config\<close>;
  \<^item> PIL drawing: an image is its size and the list of drawing calls made on it.

  Python exceptions are values of type \<open>error\<close>; every function that can raise returns
  \<open>error + 'a\<close>. Python integers are \<open>int\<close>. Texts are lists of characters, one \<open>char\<close>
  per character of the Python string.
\<close>

subsection \<open>Data\<close>

datatype error = AttributeError | IndexError | ValueError

type_synonym wspec = "int \<times> int \<times> int"
  \<comment> \<open>\<open>(y-offset, x-offset, width)\<close>\<close>

type_synonym box = "int \<times> int \<times> int \<times> int"
  \<comment> \<open>\<open>(image_x, y, w, h)\<close>, as appended to \<open>blocks\<close>\<close>

type_synonym color = "int \<times> int \<times> int \<times> int"

datatype font =
  DefaultFont | BoldFont | CodeFont | ItalicsFont
  | H1Font | H2Font | H3Font | H4Font | H5Font | H6Font

text \<open>
  The drawing calls: \<open>draw.text((x, y), s, font=f, fill=c)\<close>,
  \<open>draw.line((x0, y0, x1, y1), fill=c)\<close> and
  \<open>draw.ellipse((x0, y0, x1, y1), outline=c, fill=c')\<close>. Python 3's \<open>/\<close> on integers
  yields halves, so the coordinates of lines and ellipses are rationals.
\<close>

datatype draw_op =
  DrawText int int string font color
  | DrawLine rat rat rat rat color
  | DrawEllipse rat rat rat rat color color

record pil_image =
  im_size :: "int \<times> int"
  im_ops :: "draw_op list"

record final_image =
  final_size :: "int \<times> int"
  final_pastes :: "(pil_image \<times> int \<times> int) list"

text \<open>
  The attribute \<open>self.image_draw\<close> is \<open>None\<close> after construction, a drawing surface on
  \<open>self.image\<close> after \<open>new_image_block\<close>, and deleted (\<open>del self.image_draw\<close>) after
  \<open>save_image_block\<close>.
\<close>

datatype draw_attr = Deleted | NoneDraw | Draw

datatype node =
  Node (node_tag: string) (node_text: "string option") (node_tail: "string option")
       (node_attrib: "(string \<times> string) list") (node_children: "node list")

record config =
  blockquote_indent :: int
  code_indent :: int
  color :: color
  hr_color :: color
  hr_padding :: int
  link_color :: color
  list_indent :: int
  list_item_margin_bottom :: int
  bullet_outdent :: int
  margin_bottom :: int

definition default_config :: config where
  "default_config =
     \<lparr> blockquote_indent = 16, code_indent = 16, color = (255, 255, 255, 255),
       hr_color = (220, 220, 220, 255), hr_padding = 0, link_color = (100, 100, 255, 255),
       list_indent = 28, list_item_margin_bottom = 4, bullet_outdent = 8,
       margin_bottom = 16 \<rparr>"

definition BULLET_DIAMETER :: int where
  "BULLET_DIAMETER = 4"

definition IMAGE_BLOCK_HEIGHT :: int where
  "IMAGE_BLOCK_HEIGHT = 1000"

text \<open>
  The fields of \<open>ImageTreeprocessor\<close>. The width-spec is a Python list shared with the
  caller, so \<open>width_spec\<close> is the address of the list and \<open>store\<close> maps addresses to list
  contents. \<open>start_x\<close> and \<open>end_x\<close> are attributes that exist only once
  \<open>apply_width_spec\<close> has assigned them. \<open>self.y\<close> is the field \<open>self_y\<close>. \<open>stdout\<close> collects
  what \<open>print\<close> writes.
\<close>

record engine =
  image :: "pil_image option"
  image_draw :: draw_attr
  image_x :: int
  image_y :: int
  indent :: int
  links :: "(string \<times> box list option) list"
  list_types :: "string list"
  list_item_nums :: "int list"
  self_y :: int
  image_width :: int
  images :: "(pil_image \<times> int) list"
  line_height :: int
  in_pre :: bool
  width_spec :: nat
  store :: "nat \<Rightarrow> wspec list"
  width_spec_index :: int
  start_x :: "int option"
  end_x :: "int option"
  stdout :: "string list"

subsection \<open>Python list and string primitives\<close>

definition py_nth :: "'a list \<Rightarrow> int \<Rightarrow> error + 'a" where
  \<comment> \<open>\<open>xs[i]\<close>: \<open>xs[-k]\<close> is the \<open>k\<close>-th element from the end; outside the list, \<open>IndexError\<close>\<close>
  "py_nth xs i =
     (if 0 \<le> i \<and> i < int (length xs) then Inr (xs ! nat i)
      else if i < 0 \<and> - int (length xs) \<le> i then Inr (xs ! nat (int (length xs) + i))
      else Inl IndexError)"

definition py_slice :: "'a list \<Rightarrow> nat \<Rightarrow> nat \<Rightarrow> 'a list" where
  \<comment> \<open>\<open>xs[a:b]\<close> for indices that are not negative\<close>
  "py_slice xs a b = take (b - a) (drop a xs)"

fun join :: "string \<Rightarrow> string list \<Rightarrow> string" where
  "join sep [] = []"
| "join sep [x] = x"
| "join sep (x # v # va) = x @ sep @ join sep (v # va)"

fun split_on :: "char \<Rightarrow> string \<Rightarrow> string list" where
  \<comment> \<open>\<open>text.split(c)\<close> with a one-character separator: empty pieces are kept\<close>
  "split_on c [] = [[]]"
| "split_on c (x # xs) =
     (if x = c then [] # split_on c xs
      else (case split_on c xs of [] \<Rightarrow> [[x]] | p # ps \<Rightarrow> (x # p) # ps))"

definition is_space :: "char \<Rightarrow> bool" where
  \<comment> \<open>the characters below 256 that \<open>\s\<close> matches in a Python 3 string pattern\<close>
  "is_space c = (of_char c \<in> {9, 10, 11, 12, 13, 28, 29, 30, 31, 32, 133, 160 :: nat})"

function compact_whitespace :: "string \<Rightarrow> string" where
  \<comment> \<open>\<open>re.sub('\s+', ' ', text)\<close>: every maximal run of whitespace becomes one space\<close>
  "compact_whitespace [] = []"
| "compact_whitespace (x # xs) =
     (if is_space x then CHR '' '' # compact_whitespace (dropWhile is_space xs)
      else x # compact_whitespace xs)"
  by pat_completeness auto
termination
  by (relation "measure length") (auto simp: length_dropWhile_le less_Suc_eq_le)

fun digits :: "nat \<Rightarrow> string" where
  "digits n = (if n < 10 then [char_of (48 + n)] else digits (n div 10) @ [char_of (48 + n mod 10)])"

declare digits.simps [simp del]

definition fmt_d :: "int \<Rightarrow> string" where
  \<comment> \<open>\<open>"%d" % n\<close>\<close>
  "fmt_d n = (if n < 0 then CHR ''-'' # digits (nat (- n)) else digits (nat n))"

subsection \<open>Width-spec, chunks and cursor\<close>

definition apply_width_spec :: "int \<Rightarrow> engine \<Rightarrow> error + engine" where
  "apply_width_spec h s =
     (let ws = store s (width_spec s) in
      if width_spec_index s + 1 < int (length ws) then
        (case py_nth ws (width_spec_index s + 1) of
           Inl e \<Rightarrow> Inl e
         | Inr (yo, xo, wd) \<Rightarrow>
             if yo \<le> self_y s + h then
               Inr (s\<lparr>width_spec_index := width_spec_index s + 1,
                      start_x := Some xo, end_x := Some (xo + wd)\<rparr>)
             else Inr s)
      else Inr s)"

definition newline :: "int \<Rightarrow> engine \<Rightarrow> error + engine" where
  \<comment> \<open>\<open>newline(h)\<close>; the call without argument is \<open>newline (-1)\<close>\<close>
  "newline h0 s =
     (let h = (if h0 = -1 then line_height s else h0) in
      case start_x s of
        None \<Rightarrow> Inl AttributeError
      | Some sx \<Rightarrow>
          Inr (s\<lparr>image_y := image_y s + h, self_y := self_y s + h,
                 image_x := sx + indent s, line_height := 0\<rparr>))"

definition save_image_block :: "engine \<Rightarrow> error + engine" where
  "save_image_block s =
     (case image s of
        None \<Rightarrow> Inr s
      | Some im \<Rightarrow>
          if image_draw s = Deleted then Inl AttributeError
          else Inr (s\<lparr>images := images s @ [(im, image_y s)], image_draw := Deleted\<rparr>))"

definition new_image_block :: "engine \<Rightarrow> error + engine" where
  "new_image_block s =
     (case save_image_block s of
        Inl e \<Rightarrow> Inl e
      | Inr s1 \<Rightarrow>
          Inr (s1\<lparr>image := Some \<lparr>im_size = (image_width s1, IMAGE_BLOCK_HEIGHT), im_ops = []\<rparr>,
                  image_draw := Draw, image_y := 0\<rparr>))"

definition capacity_message :: string where
  "capacity_message = ''Image block size too small!  Results will be cropped...''"

definition ensure_image :: "int \<Rightarrow> engine \<Rightarrow> error + (bool \<times> engine)" where
  \<comment> \<open>the returned flag says whether the result is a drawing surface (\<open>False\<close>: \<open>None\<close>)\<close>
  "ensure_image h s =
     (case apply_width_spec h s of
        Inl e \<Rightarrow> Inl e
      | Inr s1 \<Rightarrow>
          (case image s1 of
             None \<Rightarrow> Inl AttributeError
           | Some im \<Rightarrow>
               if image_y s1 + h > snd (im_size im) then
                 (if image_y s1 = 0 then
                    Inr (False, s1\<lparr>stdout := stdout s1 @ [capacity_message]\<rparr>)
                  else
                    (case new_image_block s1 of
                       Inl e \<Rightarrow> Inl e
                     | Inr s2 \<Rightarrow> Inr (True, s2)))
               else
                 (case image_draw s1 of
                    Deleted \<Rightarrow> Inl AttributeError
                  | NoneDraw \<Rightarrow> Inr (False, s1)
                  | Draw \<Rightarrow> Inr (True, s1))))"

definition draw_on :: "draw_op \<Rightarrow> engine \<Rightarrow> engine" where
  \<comment> \<open>a drawing call on the surface of the current chunk\<close>
  "draw_on op s = s\<lparr>image := map_option (\<lambda>im. im\<lparr>im_ops := im_ops im @ [op]\<rparr>) (image s)\<rparr>"

subsection \<open>Text runs\<close>

text \<open>
  The inner loop of \<open>render_text\<close> (lines 361 to 367): extend \<open>end_index\<close> while the
  candidate \<open>" ".join(parts[start_index:end_index + 1])\<close> fits, that is while
  \<open>self.image_x + w > self.end_x\<close> is false. The result is the final \<open>(end_index, w, h)\<close>.
  \<open>tsf\<close> is \<open>draw.textsize\<close> at the font in use.
\<close>

function scan_fit ::
  "(string \<Rightarrow> int \<times> int) \<Rightarrow> string list \<Rightarrow> nat \<Rightarrow> int \<Rightarrow> int \<Rightarrow> nat \<Rightarrow> int \<times> int
     \<Rightarrow> nat \<times> int \<times> int" where
  "scan_fit tsf parts start_index ix ex end_index wh =
     (if end_index < length parts then
        (let wh' = tsf (join '' '' (py_slice parts start_index (end_index + 1))) in
         if ix + fst wh' > ex then (end_index, wh')
         else scan_fit tsf parts start_index ix ex (end_index + 1) wh')
      else (end_index, wh))"
  by pat_completeness auto
termination
  by (relation "measure (\<lambda>(tsf, parts, start_index, ix, ex, end_index, wh). length parts - end_index)")
     auto

declare scan_fit.simps [simp del]

text \<open>
  Lines 360 to 372: one run of the inner loop from \<open>end_index = start_index\<close>, then the
  forced single word. The loop body runs at least once whenever the outer loop condition
  holds, so the initial \<open>(w, h)\<close> is never returned. The result is \<open>(end_index, h)\<close>.
\<close>

definition fit_end ::
  "(string \<Rightarrow> int \<times> int) \<Rightarrow> string list \<Rightarrow> nat \<Rightarrow> int \<Rightarrow> int \<Rightarrow> nat \<times> int" where
  "fit_end tsf parts start_index ix ex =
     (case scan_fit tsf parts start_index ix ex start_index (0, 0) of
        (end_index, w, h) \<Rightarrow>
          (if start_index = end_index then start_index + 1 else end_index, h))"

lemma scan_fit_ge: "end_index \<le> fst (scan_fit tsf parts start_index ix ex end_index wh)"
proof (induction tsf parts start_index ix ex end_index wh rule: scan_fit.induct)
  case (1 tsf parts start_index ix ex end_index wh)
  show ?case
  proof (cases "end_index < length parts")
    case False
    then show ?thesis by (simp add: scan_fit.simps)
  next
    case True
    let ?wh = "tsf (join '' '' (py_slice parts start_index (end_index + 1)))"
    show ?thesis
    proof (cases "ix + fst ?wh > ex")
      case True
      with \<open>end_index < length parts\<close> show ?thesis
        by (subst scan_fit.simps) (simp add: Let_def)
    next
      case False
      with \<open>end_index < length parts\<close> "1.IH"[of ?wh]
      have "end_index + 1 \<le> fst (scan_fit tsf parts start_index ix ex (end_index + 1) ?wh)"
        by simp
      with False \<open>end_index < length parts\<close> show ?thesis
        by (subst scan_fit.simps) (simp add: Let_def)
    qed
  qed
qed

lemma fit_end_gt: "start_index < fst (fit_end tsf parts start_index ix ex)"
proof -
  obtain e w h where sc: "scan_fit tsf parts start_index ix ex start_index (0, 0) = (e, w, h)"
    by (cases "scan_fit tsf parts start_index ix ex start_index (0, 0)") auto
  from scan_fit_ge[of start_index tsf parts start_index ix ex "(0, 0)"] sc
  have "start_index \<le> e" by simp
  with sc show ?thesis by (simp add: fit_end_def)
qed

text \<open>
  Lines 360 to 387, one pass through the body of the outer loop of normal mode up to the
  recording of the bounding box: fit a fragment starting at \<open>start_index\<close>, make room for
  it, draw it and measure it. \<open>draw.text\<close> on the \<open>None\<close> that \<open>ensure_image\<close> may return
  raises \<open>AttributeError\<close>. The result is \<open>end_index\<close>, the bounding box and the engine.
\<close>

definition place_fragment ::
  "(font \<Rightarrow> string \<Rightarrow> int \<times> int) \<Rightarrow> font \<Rightarrow> color \<Rightarrow> string list \<Rightarrow> nat \<Rightarrow> engine
     \<Rightarrow> error + (nat \<times> box \<times> engine)" where
  "place_fragment ts fnt col parts start_index s =
     (case end_x s of
        None \<Rightarrow> Inl AttributeError
      | Some ex \<Rightarrow>
          (let end_index = fst (fit_end (ts fnt) parts start_index (image_x s) ex);
               h = snd (fit_end (ts fnt) parts start_index (image_x s) ex);
               text_frag = join '' '' (py_slice parts start_index end_index)
           in case ensure_image h s of
                Inl e \<Rightarrow> Inl e
              | Inr (ok, s1) \<Rightarrow>
                  if \<not> ok then Inl AttributeError
                  else
                    (let s2 = s1\<lparr>line_height := max h (line_height s1)\<rparr>;
                         s3 = draw_on (DrawText (image_x s2) (image_y s2) text_frag fnt col) s2
                     in Inr (end_index,
                             (image_x s3, self_y s3, fst (ts fnt text_frag), snd (ts fnt text_frag)),
                             s3))))"

lemma place_fragment_gt:
  "place_fragment ts fnt col parts start_index s = Inr (end_index, bx, s') \<Longrightarrow>
     start_index < end_index"
  by (auto simp: place_fragment_def Let_def fit_end_gt
      split: option.splits sum.splits prod.splits if_splits)

text \<open>
  The outer loop of normal mode (lines 359 to 399). At the loop head
  \<open>start_index = end_index\<close> (both start at 0, and line 399 restores it), so one index is
  passed. When the fragment reaches the last part the loop condition fails and the loop
  ends.
\<close>

function wrap_lines ::
  "(font \<Rightarrow> string \<Rightarrow> int \<times> int) \<Rightarrow> font \<Rightarrow> color \<Rightarrow> bool \<Rightarrow> string list \<Rightarrow> nat \<Rightarrow> box list
     \<Rightarrow> engine \<Rightarrow> error + (box list \<times> engine)" where
  "wrap_lines ts fnt col end_block parts start_index blocks s =
     (if start_index < length parts then
        (case place_fragment ts fnt col parts start_index s of
           Inl e \<Rightarrow> Inl e
         | Inr (end_index, bx, s3) \<Rightarrow>
             if end_index < length parts then
               (case newline (-1) s3 of
                  Inl e \<Rightarrow> Inl e
                | Inr s4 \<Rightarrow> wrap_lines ts fnt col end_block parts end_index (blocks @ [bx]) s4)
             else if end_block then
               (case newline (-1) s3 of
                  Inl e \<Rightarrow> Inl e
                | Inr s4 \<Rightarrow> Inr (blocks @ [bx], s4))
             else Inr (blocks @ [bx], s3\<lparr>image_x := image_x s3 + fst (snd (snd bx))\<rparr>))
      else Inr (blocks, s))"
  by pat_completeness auto
termination
  by (relation "measure (\<lambda>(ts, fnt, col, end_block, parts, start_index, blocks, s).
                            length parts - start_index)")
     (auto simp: diff_less_mono2 dest: place_fragment_gt)

declare wrap_lines.simps [simp del]

text \<open>
  Preformatted mode (lines 342 to 351): each line is measured, given room, drawn and
  followed by a newline.
\<close>

definition place_line ::
  "(font \<Rightarrow> string \<Rightarrow> int \<times> int) \<Rightarrow> font \<Rightarrow> color \<Rightarrow> string \<Rightarrow> engine
     \<Rightarrow> error + (box \<times> engine)" where
  "place_line ts fnt col line s =
     (if image_draw s \<noteq> Draw then Inl AttributeError
      else
        (let w = fst (ts fnt line); h = snd (ts fnt line)
         in case ensure_image h s of
              Inl e \<Rightarrow> Inl e
            | Inr (ok, s1) \<Rightarrow>
                if \<not> ok then Inl AttributeError
                else
                  (let s2 = draw_on (DrawText (image_x s1) (image_y s1) line fnt col) s1;
                       bx = (image_x s2, self_y s2, w, h);
                       s3 = s2\<lparr>line_height := max h (line_height s2)\<rparr>
                   in case newline (-1) s3 of
                        Inl e \<Rightarrow> Inl e
                      | Inr s4 \<Rightarrow> Inr (bx, s4))))"

fun pre_lines ::
  "(font \<Rightarrow> string \<Rightarrow> int \<times> int) \<Rightarrow> font \<Rightarrow> color \<Rightarrow> string list \<Rightarrow> box list \<Rightarrow> engine
     \<Rightarrow> error + (box list \<times> engine)" where
  "pre_lines ts fnt col [] blocks s = Inr (blocks, s)"
| "pre_lines ts fnt col (line # rest) blocks s =
     (case place_line ts fnt col line s of
        Inl e \<Rightarrow> Inl e
      | Inr (bx, s4) \<Rightarrow> pre_lines ts fnt col rest (blocks @ [bx]) s4)"

text \<open>
  \<open>render_text(text, color, end_block, font)\<close> returns \<open>None\<close> for an absent text and the
  list \<open>blocks\<close> otherwise. In normal mode \<open>draw = self.image_draw\<close> is read first and
  \<open>draw.textsize\<close> is called on it at once, \<open>text.split(" ")\<close> never being empty.
\<close>

definition render_text ::
  "(font \<Rightarrow> string \<Rightarrow> int \<times> int) \<Rightarrow> string option \<Rightarrow> color \<Rightarrow> bool \<Rightarrow> font \<Rightarrow> engine
     \<Rightarrow> error + (box list option \<times> engine)" where
  "render_text ts txt col end_block fnt s =
     (case txt of
        None \<Rightarrow> Inr (None, s)
      | Some t \<Rightarrow>
          if in_pre s then
            (case pre_lines ts fnt col (split_on (CHR 0x0A) t) [] s of
               Inl e \<Rightarrow> Inl e
             | Inr (blocks, s') \<Rightarrow> Inr (Some blocks, s'))
          else if image_draw s \<noteq> Draw then Inl AttributeError
          else
            (case wrap_lines ts fnt col end_block
                    (split_on (CHR '' '') (compact_whitespace t)) 0 [] s of
               Inl e \<Rightarrow> Inl e
             | Inr (blocks, s') \<Rightarrow> Inr (Some blocks, s')))"

definition render_text_stmt ::
  "(font \<Rightarrow> string \<Rightarrow> int \<times> int) \<Rightarrow> string option \<Rightarrow> color \<Rightarrow> bool \<Rightarrow> font \<Rightarrow> engine
     \<Rightarrow> error + engine" where
  \<comment> \<open>a call of \<open>render_text\<close> whose result is dropped\<close>
  "render_text_stmt ts txt col end_block fnt s = map_sum id snd (render_text ts txt col end_block fnt s)"

subsection \<open>Tag handlers\<close>

text \<open>
  Every handler takes \<open>kids\<close>, the effect of \<open>self.handle_children(node)\<close> on the node it
  handles. \<open>thn f g\<close> runs \<open>f\<close> and, unless it raised, \<open>g\<close>.
\<close>

definition thn :: "('s \<Rightarrow> error + 's) \<Rightarrow> ('s \<Rightarrow> error + 's) \<Rightarrow> 's \<Rightarrow> error + 's" where
  "thn f g s = (case f s of Inl e \<Rightarrow> Inl e | Inr s' \<Rightarrow> g s')"

definition handle_a ::
  "config \<Rightarrow> (font \<Rightarrow> string \<Rightarrow> int \<times> int) \<Rightarrow> node \<Rightarrow> (engine \<Rightarrow> error + engine) \<Rightarrow> engine
     \<Rightarrow> error + engine" where
  "handle_a cfg ts n kids =
     thn (\<lambda>s. case map_of (node_attrib n) ''href'' of
                 Some href \<Rightarrow>
                   (case render_text ts (node_text n) (link_color cfg) False DefaultFont s of
                      Inl e \<Rightarrow> Inl e
                    | Inr (blocks, s1) \<Rightarrow> Inr (s1\<lparr>links := links s1 @ [(href, blocks)]\<rparr>))
               | None \<Rightarrow> render_text_stmt ts (node_text n) (color cfg) False DefaultFont s)
      (thn kids (render_text_stmt ts (node_tail n) (color cfg) False DefaultFont))"

definition handle_blockquote ::
  "config \<Rightarrow> (engine \<Rightarrow> error + engine) \<Rightarrow> engine \<Rightarrow> error + engine" where
  "handle_blockquote cfg kids =
     thn (\<lambda>s. newline (-1) (s\<lparr>indent := indent s + blockquote_indent cfg\<rparr>))
      (thn kids (\<lambda>s. newline (-1) (s\<lparr>indent := indent s - blockquote_indent cfg\<rparr>)))"

definition handle_code ::
  "config \<Rightarrow> (font \<Rightarrow> string \<Rightarrow> int \<times> int) \<Rightarrow> node \<Rightarrow> (engine \<Rightarrow> error + engine) \<Rightarrow> engine
     \<Rightarrow> error + engine" where
  "handle_code cfg ts n kids =
     thn (render_text_stmt ts (node_text n) (color cfg) False CodeFont)
      (thn kids (render_text_stmt ts (node_tail n) (color cfg) False DefaultFont))"

definition at_line_start_newline :: "engine \<Rightarrow> error + engine" where
  \<comment> \<open>\<open>if self.image_x > self.start_x + self.indent: self.newline()\<close>\<close>
  "at_line_start_newline s =
     (case start_x s of
        None \<Rightarrow> Inl AttributeError
      | Some sx \<Rightarrow> if image_x s > sx + indent s then newline (-1) s else Inr s)"

definition handle_div :: "(engine \<Rightarrow> error + engine) \<Rightarrow> engine \<Rightarrow> error + engine" where
  "handle_div kids = thn at_line_start_newline (thn kids at_line_start_newline)"

definition handle_em ::
  "config \<Rightarrow> (font \<Rightarrow> string \<Rightarrow> int \<times> int) \<Rightarrow> node \<Rightarrow> (engine \<Rightarrow> error + engine) \<Rightarrow> engine
     \<Rightarrow> error + engine" where
  "handle_em cfg ts n kids =
     thn (render_text_stmt ts (node_text n) (color cfg) False ItalicsFont)
      (thn kids (render_text_stmt ts (node_tail n) (color cfg) False DefaultFont))"

definition font_attr :: "string \<Rightarrow> font option" where
  \<comment> \<open>\<open>getattr(self, name)\<close> for the attribute names that end in \<open>_font\<close>\<close>
  "font_attr name =
     (if name = ''h1_font'' then Some H1Font
      else if name = ''h2_font'' then Some H2Font
      else if name = ''h3_font'' then Some H3Font
      else if name = ''h4_font'' then Some H4Font
      else if name = ''h5_font'' then Some H5Font
      else if name = ''h6_font'' then Some H6Font
      else if name = ''default_font'' then Some DefaultFont
      else if name = ''bold_font'' then Some BoldFont
      else if name = ''code_font'' then Some CodeFont
      else if name = ''italics_font'' then Some ItalicsFont
      else None)"

definition handle_h ::
  "config \<Rightarrow> (font \<Rightarrow> string \<Rightarrow> int \<times> int) \<Rightarrow> node \<Rightarrow> engine \<Rightarrow> error + engine" where
  "handle_h cfg ts n s =
     (case font_attr (node_tag n @ ''_font'') of
        None \<Rightarrow> Inl AttributeError
      | Some fnt \<Rightarrow> thn (render_text_stmt ts (node_text n) (color cfg) True fnt) (newline (-1)) s)"

definition handle_hr :: "config \<Rightarrow> engine \<Rightarrow> error + engine" where
  "handle_hr cfg =
     thn (newline (-1))
      (thn (\<lambda>s. case (image_draw s, start_x s, end_x s) of
                   (Draw, Some sx, Some ex) \<Rightarrow>
                     Inr (draw_on
                            (DrawLine (of_int (sx + hr_padding cfg))
                               (of_int (image_y s) + of_int (margin_bottom cfg) / 2)
                               (of_int (ex - hr_padding cfg))
                               (of_int (image_y s) + of_int (margin_bottom cfg) / 2)
                               (hr_color cfg)) s)
                 | _ \<Rightarrow> Inl AttributeError)
        (newline (margin_bottom cfg)))"

definition draw_bullet ::
  "config \<Rightarrow> (font \<Rightarrow> string \<Rightarrow> int \<times> int) \<Rightarrow> engine \<Rightarrow> error + engine" where
  \<comment> \<open>lines 198 to 207\<close>
  "draw_bullet cfg ts s =
     (if image_draw s \<noteq> Draw then Inl AttributeError
      else
        (let h = snd (ts DefaultFont ''E'')
         in case ensure_image h s of
              Inl e \<Rightarrow> Inl e
            | Inr (ok, s1) \<Rightarrow>
                if \<not> ok then Inl AttributeError
                else
                  (let x = image_x s1 - BULLET_DIAMETER - bullet_outdent cfg;
                       y = of_int (image_y s1) + of_int (h - BULLET_DIAMETER) / 2
                   in Inr (draw_on
                             (DrawEllipse (of_int x) y (of_int (x + BULLET_DIAMETER))
                                (y + of_int BULLET_DIAMETER) (color cfg) (color cfg)) s1))))"

definition draw_number ::
  "config \<Rightarrow> (font \<Rightarrow> string \<Rightarrow> int \<times> int) \<Rightarrow> engine \<Rightarrow> error + engine" where
  \<comment> \<open>lines 213 to 222\<close>
  "draw_number cfg ts s =
     (case py_nth (list_item_nums s) (-1) of
        Inl e \<Rightarrow> Inl e
      | Inr num \<Rightarrow>
          if image_draw s \<noteq> Draw then Inl AttributeError
          else
            (let current_number = fmt_d num;
                 w = fst (ts DefaultFont current_number);
                 h = snd (ts DefaultFont current_number)
             in case ensure_image h s of
                  Inl e \<Rightarrow> Inl e
                | Inr (ok, s1) \<Rightarrow>
                    if \<not> ok then Inl AttributeError
                    else
                      (let x = image_x s1 - w - bullet_outdent cfg;
                           s2 = draw_on (DrawText x (image_y s1) (current_number @ ''.'')
                                           DefaultFont (color cfg)) s1
                       in Inr (s2\<lparr>list_item_nums :=
                                    butlast (list_item_nums s2) @ [last (list_item_nums s2) + 1]\<rparr>))))"

definition handle_li ::
  "config \<Rightarrow> (font \<Rightarrow> string \<Rightarrow> int \<times> int) \<Rightarrow> node \<Rightarrow> (engine \<Rightarrow> error + engine) \<Rightarrow> engine
     \<Rightarrow> error + engine" where
  "handle_li cfg ts n kids s =
     (case py_nth (list_types s) (-1) of
        Inl e \<Rightarrow> Inl e
      | Inr list_type \<Rightarrow>
          thn (if list_type = ''unordered'' then
                 thn (draw_bullet cfg ts)
                  (thn (render_text_stmt ts (node_text n) (color cfg) True DefaultFont) kids)
               else if list_type = ''ordered'' then
                 thn (draw_number cfg ts)
                  (thn (render_text_stmt ts (node_text n) (color cfg) True DefaultFont) kids)
               else Inr)
            (newline (list_item_margin_bottom cfg)) s)"

definition handle_ol ::
  "config \<Rightarrow> (engine \<Rightarrow> error + engine) \<Rightarrow> engine \<Rightarrow> error + engine" where
  "handle_ol cfg kids =
     thn (\<lambda>s. newline (-1) (s\<lparr>indent := indent s + list_indent cfg\<rparr>))
      (thn (\<lambda>s. kids (s\<lparr>list_types := list_types s @ [''ordered''],
                         list_item_nums := list_item_nums s @ [1]\<rparr>))
        (\<lambda>s. newline (-1)
               (s\<lparr>list_item_nums := butlast (list_item_nums s),
                   list_types := butlast (list_types s),
                   indent := indent s - list_indent cfg\<rparr>)))"

definition handle_p ::
  "config \<Rightarrow> (font \<Rightarrow> string \<Rightarrow> int \<times> int) \<Rightarrow> node \<Rightarrow> (engine \<Rightarrow> error + engine) \<Rightarrow> engine
     \<Rightarrow> error + engine" where
  "handle_p cfg ts n kids =
     thn (render_text_stmt ts (node_text n) (color cfg) False DefaultFont)
      (thn kids
        (thn (render_text_stmt ts (node_tail n) (color cfg) True DefaultFont)
          (newline (margin_bottom cfg))))"

definition handle_pre ::
  "config \<Rightarrow> (engine \<Rightarrow> error + engine) \<Rightarrow> engine \<Rightarrow> error + engine" where
  "handle_pre cfg kids s =
     (let old_in_pre = in_pre s
      in thn (\<lambda>s. newline (-1) (s\<lparr>in_pre := True, indent := indent s + code_indent cfg\<rparr>))
          (thn kids
            (thn (\<lambda>s. newline (-1) (s\<lparr>indent := indent s - code_indent cfg\<rparr>))
              (\<lambda>s. Inr (s\<lparr>in_pre := old_in_pre\<rparr>)))) s)"

definition handle_strong ::
  "config \<Rightarrow> (font \<Rightarrow> string \<Rightarrow> int \<times> int) \<Rightarrow> node \<Rightarrow> (engine \<Rightarrow> error + engine) \<Rightarrow> engine
     \<Rightarrow> error + engine" where
  "handle_strong cfg ts n kids =
     thn (render_text_stmt ts (node_text n) (color cfg) False BoldFont)
      (thn kids (render_text_stmt ts (node_tail n) (color cfg) False DefaultFont))"

definition handle_ul ::
  "config \<Rightarrow> (engine \<Rightarrow> error + engine) \<Rightarrow> engine \<Rightarrow> error + engine" where
  "handle_ul cfg kids =
     thn (\<lambda>s. newline (-1) (s\<lparr>indent := indent s + list_indent cfg\<rparr>))
      (thn (\<lambda>s. kids (s\<lparr>list_types := list_types s @ [''unordered'']\<rparr>))
        (\<lambda>s. newline (-1)
               (s\<lparr>list_types := butlast (list_types s),
                   indent := indent s - list_indent cfg\<rparr>)))"

definition handle_unknown ::
  "node \<Rightarrow> (engine \<Rightarrow> error + engine) \<Rightarrow> engine \<Rightarrow> error + engine" where
  "handle_unknown n kids s = kids (s\<lparr>stdout := stdout s @ [''Unknown tag: '' @ node_tag n]\<rparr>)"

text \<open>
  The table \<open>handlers\<close> of \<open>handle_node\<close> with its lookup
  \<open>handlers.get(node.tag, self.handle_unknown)\<close>, applied to the node and to the effect
  \<open>kids\<close> of handling its children.
\<close>

definition handlers ::
  "config \<Rightarrow> (font \<Rightarrow> string \<Rightarrow> int \<times> int) \<Rightarrow> string \<Rightarrow> node \<Rightarrow> (engine \<Rightarrow> error + engine)
     \<Rightarrow> engine \<Rightarrow> error + engine" where
  "handlers cfg ts tg n kids =
     (if tg = ''a'' then handle_a cfg ts n kids
      else if tg = ''code'' then handle_code cfg ts n kids
      else if tg = ''blockquote'' then handle_blockquote cfg kids
      else if tg = ''em'' then handle_em cfg ts n kids
      else if tg = ''div'' then handle_div kids
      else if tg = ''h1'' then handle_h cfg ts n
      else if tg = ''h2'' then handle_h cfg ts n
      else if tg = ''h3'' then handle_h cfg ts n
      else if tg = ''h4'' then handle_h cfg ts n
      else if tg = ''h5'' then handle_h cfg ts n
      else if tg = ''h6'' then handle_h cfg ts n
      else if tg = ''hr'' then handle_hr cfg
      else if tg = ''li'' then handle_li cfg ts n kids
      else if tg = ''ol'' then handle_ol cfg kids
      else if tg = ''p'' then handle_p cfg ts n kids
      else if tg = ''pre'' then handle_pre cfg kids
      else if tg = ''strong'' then handle_strong cfg ts n kids
      else if tg = ''ul'' then handle_ul cfg kids
      else handle_unknown n kids)"

text \<open>
  \<open>handle_node\<close> calls the handler of the node's tag; \<open>handle_children\<close> handles the
  children in order.
\<close>

fun handle_node ::
  "config \<Rightarrow> (font \<Rightarrow> string \<Rightarrow> int \<times> int) \<Rightarrow> node \<Rightarrow> engine \<Rightarrow> error + engine"
and handle_children ::
  "config \<Rightarrow> (font \<Rightarrow> string \<Rightarrow> int \<times> int) \<Rightarrow> node list \<Rightarrow> engine \<Rightarrow> error + engine" where
  "handle_node cfg ts (Node tg txt tail attrib ch) s =
     handlers cfg ts tg (Node tg txt tail attrib ch) (\<lambda>s'. handle_children cfg ts ch s') s"
| "handle_children cfg ts [] s = Inr s"
| "handle_children cfg ts (c # cs) s =
     (case handle_node cfg ts c s of
        Inl e \<Rightarrow> Inl e
      | Inr s' \<Rightarrow> handle_children cfg ts cs s')"

declare handle_node.simps [simp del]

subsection \<open>Construction, the walk and the final image\<close>

fun max_by_width :: "wspec \<Rightarrow> wspec list \<Rightarrow> wspec" where
  \<comment> \<open>\<open>max(width_spec, key=lambda x: x[2])\<close> on a non-empty list: the first entry of greatest width\<close>
  "max_by_width best [] = best"
| "max_by_width best (e # es) =
     max_by_width (if snd (snd best) < snd (snd e) then e else best) es"

text \<open>
  \<open>ImageTreeprocessor.__init__(width_spec, config)\<close>: the argument is the address \<open>a\<close> of the
  caller's list in the store \<open>st\<close>. \<open>max\<close> of an empty list raises \<open>ValueError\<close>.
  \<open>self.width_spec.sort()\<close> sorts the list at that address: tuples of integers are compared
  lexicographically, which is the order of \<open>int \<times> int \<times> int\<close>, and the sorted arrangement of
  a list in a linear order is unique. The configured fonts are assumed to load.
\<close>

definition init :: "nat \<Rightarrow> (nat \<Rightarrow> wspec list) \<Rightarrow> error + engine" where
  "init a st =
     (case st a of
        [] \<Rightarrow> Inl ValueError
      | e # es \<Rightarrow>
          apply_width_spec 0
            \<lparr> image = None, image_draw = NoneDraw, image_x = 0, image_y = 0, indent = 0,
              links = [], list_types = [], list_item_nums = [], self_y = 0,
              image_width = snd (snd (max_by_width e es)), images = [], line_height = 0,
              in_pre = False, width_spec = a, store = st(a := sort (st a)),
              width_spec_index = -1, start_x = None, end_x = None, stdout = [] \<rparr>)"

definition run ::
  "config \<Rightarrow> (font \<Rightarrow> string \<Rightarrow> int \<times> int) \<Rightarrow> node \<Rightarrow> engine \<Rightarrow> error + engine" where
  "run cfg ts tree = thn new_image_block (handle_node cfg ts tree)"

fun paste_all :: "(pil_image \<times> int) list \<Rightarrow> int \<Rightarrow> (pil_image \<times> int \<times> int) list" where
  \<comment> \<open>the loop of \<open>get_image\<close>: \<open>final.paste(img[0], (0, y)); y += img[1]\<close>\<close>
  "paste_all [] y = []"
| "paste_all (img # rest) y = (fst img, 0, y) # paste_all rest (y + snd img)"

definition get_image :: "engine \<Rightarrow> error + (final_image \<times> engine)" where
  "get_image s =
     (case save_image_block s of
        Inl e \<Rightarrow> Inl e
      | Inr s1 \<Rightarrow>
          (let height = foldl (\<lambda>x y. x + snd y) 0 (images s1)
           in Inr (\<lparr> final_size = (image_width s1, height),
                      final_pastes = paste_all (images s1) 0 \<rparr>, s1)))"

definition get_links :: "engine \<Rightarrow> (string \<times> box list option) list" where
  "get_links s = links s"

text \<open>
  \<open>md2png(md_str, width_spec, config)\<close>, from the parsed tree on: construct the
  processor, run it on the tree, assemble the image. The engine is returned with the image
  so that the link map and the store can be read.
\<close>

definition md2png ::
  "config \<Rightarrow> (font \<Rightarrow> string \<Rightarrow> int \<times> int) \<Rightarrow> node \<Rightarrow> nat \<Rightarrow> (nat \<Rightarrow> wspec list)
     \<Rightarrow> error + (final_image \<times> engine)" where
  "md2png cfg ts tree a st =
     (case init a st of
        Inl e \<Rightarrow> Inl e
      | Inr s0 \<Rightarrow>
          (case run cfg ts tree s0 of
             Inl e \<Rightarrow> Inl e
           | Inr s1 \<Rightarrow> get_image s1))"

text \<open>
  A text measurement for concrete runs: every character is \<open>cw\<close> wide and every text
  \<open>lh\<close> high, in every font.
\<close>

definition fixed_pitch :: "int \<Rightarrow> int \<Rightarrow> font \<Rightarrow> string \<Rightarrow> int \<times> int" where
  "fixed_pitch cw lh fnt t = (cw * int (length t), lh)"

text \<open>Python's order on 3-tuples of integers, which \<open>list.sort\<close> uses: lexicographic.\<close>

definition tuple_le :: "wspec \<Rightarrow> wspec \<Rightarrow> bool" where
  "tuple_le p q =
     (fst p < fst q \<or>
      (fst p = fst q \<and>
       (fst (snd p) < fst (snd q) \<or>
        (fst (snd p) = fst (snd q) \<and> snd (snd p) \<le> snd (snd q)))))"

subsection \<open>Relations between the engine before and after a step\<close>

text \<open>
  \<open>same s s'\<close>: the step from \<open>s\<close> to \<open>s'\<close> leaves indentation, list context, image
  width, width-spec and link map alone and does not move the width-spec index back.
  \<open>frame s s'\<close>: the same for a whole handler, which may append link entries and, while an
  ordered list is the innermost open list, advance that list's ordinal.
\<close>

definition same :: "engine \<Rightarrow> engine \<Rightarrow> bool" where
  "same s s' =
     (indent s' = indent s \<and> list_types s' = list_types s \<and>
      list_item_nums s' = list_item_nums s \<and> image_width s' = image_width s \<and>
      width_spec s' = width_spec s \<and> store s' = store s \<and> links s' = links s \<and>
      width_spec_index s \<le> width_spec_index s')"

definition ordered_top :: "engine \<Rightarrow> bool" where
  "ordered_top s = (list_types s \<noteq> [] \<and> last (list_types s) = ''ordered'')"

definition frame :: "engine \<Rightarrow> engine \<Rightarrow> bool" where
  "frame s s' =
     (indent s' = indent s \<and> list_types s' = list_types s \<and>
      image_width s' = image_width s \<and> width_spec s' = width_spec s \<and> store s' = store s \<and>
      width_spec_index s \<le> width_spec_index s' \<and>
      length (list_item_nums s') = length (list_item_nums s) \<and>
      butlast (list_item_nums s') = butlast (list_item_nums s) \<and>
      (\<not> ordered_top s \<longrightarrow> list_item_nums s' = list_item_nums s) \<and>
      (\<exists>r. links s' = links s @ r))"

definition keeps :: "(engine \<Rightarrow> error + engine) \<Rightarrow> bool" where
  "keeps f = (\<forall>s s'. f s = Inr s' \<longrightarrow> frame s s')"

text \<open>
  List items and ordinals. \<open>items_here n\<close> counts the \<open>li\<close> nodes in the tree \<open>n\<close> that are
  handled while the list that is innermost on entry to \<open>n\<close> is still innermost: an \<open>ol\<close> or
  \<open>ul\<close> inside opens a list of its own, and headings and rules do not handle their
  children. \<open>bump c\<close> advances the top of the ordinal stack by \<open>c\<close>. \<open>adv c s s'\<close>: a
  handler step that, when an ordered list is innermost, has advanced its ordinal by \<open>c\<close>.
\<close>

fun items_here :: "node \<Rightarrow> nat" where
  "items_here (Node tg txt tail attrib ch) =
     (if tg \<in> set [''ol'', ''ul'', ''h1'', ''h2'', ''h3'', ''h4'', ''h5'', ''h6'', ''hr''] then 0
      else (if tg = ''li'' then 1 else 0) + sum_list (map items_here ch))"

definition bump :: "nat \<Rightarrow> int list \<Rightarrow> int list" where
  "bump c xs = (if c = 0 then xs else butlast xs @ [last xs + int c])"

definition adv :: "nat \<Rightarrow> engine \<Rightarrow> engine \<Rightarrow> bool" where
  "adv c s s' =
     (frame s s' \<and> (ordered_top s \<longrightarrow> list_item_nums s' = bump c (list_item_nums s)))"

definition counts :: "nat \<Rightarrow> (engine \<Rightarrow> error + engine) \<Rightarrow> bool" where
  "counts c f = (\<forall>s s'. f s = Inr s' \<longrightarrow> adv c s s')"

text \<open>
  The trees of the Markdown parser hold list items only as children of lists.
  \<open>items_in_lists n\<close>: every \<open>li\<close> node of the tree \<open>n\<close> below its root is a child of an \<open>ol\<close>
  or \<open>ul\<close> node.
\<close>

fun items_in_lists :: "node \<Rightarrow> bool" where
  "items_in_lists (Node tg txt tail attrib ch) =
     ((tg = ''ol'' \<or> tg = ''ul'' \<or> (\<forall>c \<in> set ch. node_tag c \<noteq> ''li'')) \<and>
      (\<forall>c \<in> set ch. items_in_lists c))"

text \<open>
  Drawn fragments. \<open>all_ops s\<close>: the drawing calls made so far, on the finalized chunks and
  on the open one, in order. \<open>fitted ts fnt col parts ex op bx\<close>: the drawing call \<open>op\<close> and
  the bounding box \<open>bx\<close> belong to one fragment \<open>parts[a:e]\<close> of a text run, drawn whole at
  the \<open>x\<close> of the box, whose measured width is the width of the box, and that either ends
  at or before the right edge \<open>ex\<close> or is a single word.
\<close>

definition all_ops :: "engine \<Rightarrow> draw_op list" where
  "all_ops s =
     concat (map (\<lambda>img. im_ops (fst img)) (images s)) @
     (case image s of None \<Rightarrow> [] | Some im \<Rightarrow> im_ops im)"

definition fitted ::
  "(font \<Rightarrow> string \<Rightarrow> int \<times> int) \<Rightarrow> font \<Rightarrow> color \<Rightarrow> string list \<Rightarrow> int \<Rightarrow> draw_op \<Rightarrow> box
     \<Rightarrow> bool" where
  "fitted ts fnt col parts ex op bx =
     (\<exists>a e yi. a < e \<and> e \<le> length parts \<and>
        op = DrawText (fst bx) yi (join '' '' (py_slice parts a e)) fnt col \<and>
        fst (snd (snd bx)) = fst (ts fnt (join '' '' (py_slice parts a e))) \<and>
        (fst bx + fst (snd (snd bx)) \<le> ex
         \<or> (e = a + 1 \<and> join '' '' (py_slice parts a e) = parts ! a)))"

subsection \<open>Notions of the specification and concrete inputs\<close>

definition right_edge :: "wspec \<Rightarrow> int" where
  \<comment> \<open>the right edge \<open>xOffset + width\<close> of the column of a width-spec entry\<close>
  "right_edge e = fst (snd e) + snd (snd e)"

definition const_store :: "wspec list \<Rightarrow> nat \<Rightarrow> wspec list" where
  \<comment> \<open>a store in which the caller's list is \<open>ws\<close>\<close>
  "const_store ws a = ws"

definition hello_doc :: node where
  \<comment> \<open>the tree of a title \<open># Title\<close> followed by the paragraph \<open>Hello world\<close>\<close>
  "hello_doc =
     Node ''div'' None None []
       [Node ''h1'' (Some ''Title'') (Some [CHR 0x0A]) [] [],
        Node ''p'' (Some ''Hello world'') (Some [CHR 0x0A]) [] []]"

definition first_chunk_engine :: engine where
  \<comment> \<open>the engine on which \<open>run\<close> starts the walk, for the width-spec \<open>[(0, 0, 200)]\<close>\<close>
  "first_chunk_engine =
     \<lparr> image = Some \<lparr>im_size = (200, 1000), im_ops = []\<rparr>, image_draw = Draw, image_x = 0,
       image_y = 0, indent = 0, links = [], list_types = [], list_item_nums = [], self_y = 0,
       image_width = 200, images = [], line_height = 0, in_pre = False, width_spec = 0,
       store = const_store [(0, 0, 200)], width_spec_index = 0, start_x = Some 0,
       end_x = Some 200, stdout = [] \<rparr>"

definition in_list_engine :: engine where
  \<comment> \<open>the engine on which an ordered list at the top of the document handles its children\<close>
  "in_list_engine =
     first_chunk_engine\<lparr>image_x := 28, indent := 28, list_types := [''ordered''],
                         list_item_nums := [1]\<rparr>"

definition three_items :: "node list" where
  \<comment> \<open>three list items, the second holding an ordered list of its own\<close>
  "three_items =
     [Node ''li'' (Some ''a'') None [] [],
      Node ''li'' (Some ''b'') None []
        [Node ''ol'' None None [] [Node ''li'' (Some ''c'') None [] []]],
      Node ''li'' (Some ''d'') None [] []]"

definition quoted_lists :: node where
  \<comment> \<open>a block quote holding a paragraph and an ordered list with a nested unordered list\<close>
  "quoted_lists =
     Node ''blockquote'' None None []
       [Node ''p'' (Some ''q'') None [] [],
        Node ''ol'' None None []
          [Node ''li'' (Some ''a'') None [] [],
           Node ''li'' (Some ''b'') None []
             [Node ''ul'' None None [] [Node ''li'' (Some ''c'') None [] []]]]]"

definition fox_parts :: "string list" where
  \<comment> \<open>\<open>"the quick brown fox jumps over the lazy dog".split(" ")\<close>\<close>
  "fox_parts =
     [''the'', ''quick'', ''brown'', ''fox'', ''jumps'', ''over'', ''the'', ''lazy'', ''dog'']"

definition drawn_texts :: "engine \<Rightarrow> (int \<times> int \<times> string) list" where
  \<comment> \<open>position and text of every \<open>draw.text\<close> call on the finalized chunks, in order\<close>
  "drawn_texts s =
     concat (map (\<lambda>img. concat (map (\<lambda>op. case op of DrawText x y t f c \<Rightarrow> [(x, y, t)] | _ \<Rightarrow> [])
                                      (im_ops (fst img))))
                 (images s))"

definition link_node :: node where
  \<comment> \<open>an anchor with the text \<open>click\<close> and an emphasised child \<open>here\<close>\<close>
  "link_node =
     Node ''a'' (Some ''click'') None [(''href'', ''http://x'')]
       [Node ''em'' (Some ''here'') None [] []]"

definition link_doc :: node where
  "link_doc = Node ''div'' None None [] [Node ''p'' None None [] [link_node]]"

definition two_column_doc :: node where
  \<comment> \<open>the tree of 32 horizontal rules followed by a paragraph that is one link\<close>
  "two_column_doc =
     Node ''div'' (Some [CHR 0x0A]) (Some [CHR 0x0A]) []
       (replicate 32 (Node ''hr'' None (Some [CHR 0x0A]) [] []) @
        [Node ''p'' None (Some [CHR 0x0A]) []
           [Node ''a'' (Some ''hello wide world'') None [(''href'', ''u'')] []]])"

definition short_par :: node where
  \<comment> \<open>the tree of the paragraph \<open>x\<close>\<close>
  "short_par = Node ''p'' (Some ''x'') (Some [CHR 0x0A]) [] []"

definition wrap_switch_doc :: node where
  \<comment> \<open>the tree of 18 paragraphs \<open>x\<close> followed by a paragraph of nine words\<close>
  "wrap_switch_doc =
     Node ''div'' (Some [CHR 0x0A]) (Some [CHR 0x0A]) []
       (replicate 18 short_par @
        [Node ''p'' (Some ''the quick brown fox jumps over the lazy dog'') (Some [CHR 0x0A])
           [] []])"

definition two_column_engine :: engine where
  \<comment> \<open>the engine on which \<open>run\<close> starts the walk, for the width-spec
      \<open>[(0, 0, 200), (500, 100, 50)]\<close>\<close>
  "two_column_engine =
     first_chunk_engine\<lparr>store := const_store [(0, 0, 200), (500, 100, 50)]\<rparr>"

section \<open>Properties\<close>

subsection \<open>Construction\<close>

lemma tuple_le_iff: "tuple_le p q \<longleftrightarrow> p \<le> q"
  by (cases p, cases q) (auto simp: tuple_le_def less_eq_prod_def)

lemma apply_width_spec_store:
  "apply_width_spec h s = Inr s' \<Longrightarrow> store s' = store s \<and> width_spec s' = width_spec s"
  by (auto simp: apply_width_spec_def Let_def split: if_splits sum.splits prod.splits)

text \<open>
  Claim C10. Constructing the renderer sorts the caller's width-spec list in place: after
  \<open>init\<close> the engine refers to the caller's list object (the same address, no copy), and the
  store holds at that address the caller's entries sorted lexicographically over the whole
  tuples; the lists at all other addresses are untouched.
\<close>

theorem init_sorts_callers_list:
  "init a st = Inr s \<Longrightarrow>
     width_spec s = a \<and> store s a = sort (st a) \<and> sorted_wrt tuple_le (store s a) \<and>
     mset (store s a) = mset (st a) \<and> (\<forall>b. b \<noteq> a \<longrightarrow> store s b = st b)"
proof -
  assume i: "init a st = Inr s"
  have tl: "tuple_le = (\<le>)"
    by (intro ext) (simp add: tuple_le_iff)
  from i have "store s = st(a := sort (st a)) \<and> width_spec s = a"
    by (auto simp: init_def split: list.splits dest!: apply_width_spec_store)
  then show ?thesis
    by (simp add: tl)
qed

theorem init_sorts_callers_list_witness:
  "\<exists>s. init 7 (\<lambda>_. [(500, 0, 100), (0, 10, 200)]) = Inr s \<and>
       store s 7 = [(0, 10, 200), (500, 0, 100)] \<and>
       store s 8 = [(500, 0, 100), (0, 10, 200)]"
proof -
  have "\<exists>s. init 7 (\<lambda>_. [(500, 0, 100), (0, 10, 200)]) = Inr s"
    by (simp add: init_def apply_width_spec_def py_nth_def Let_def)
  then obtain s where s: "init 7 (\<lambda>_. [(500, 0, 100), (0, 10, 200)]) = Inr s" ..
  from init_sorts_callers_list[OF s]
  have "store s 7 = [(0, 10, 200), (500, 0, 100)]"
    and "store s 8 = [(500, 0, 100), (0, 10, 200)]"
    by (simp_all add: less_eq_prod_def)
  with s show ?thesis
    by blast
qed

subsection \<open>What the drawing steps leave alone\<close>

lemma same_refl [simp]: "same s s"
  by (simp add: same_def)

lemma same_trans: "same s s1 \<Longrightarrow> same s1 s2 \<Longrightarrow> same s s2"
  by (auto simp: same_def)

lemma apply_width_spec_same: "apply_width_spec h s = Inr s' \<Longrightarrow> same s s'"
  by (auto simp: apply_width_spec_def same_def Let_def split: if_splits sum.splits prod.splits)

lemma newline_same: "newline h s = Inr s' \<Longrightarrow> same s s'"
  by (auto simp: newline_def same_def Let_def split: option.splits)

lemma save_image_block_same: "save_image_block s = Inr s' \<Longrightarrow> same s s'"
  by (auto simp: save_image_block_def same_def split: option.splits if_splits)

lemma new_image_block_same: "new_image_block s = Inr s' \<Longrightarrow> same s s'"
  by (auto simp: new_image_block_def same_def split: sum.splits dest!: save_image_block_same)

lemma draw_on_same [simp]: "same s (draw_on op s)"
  by (simp add: draw_on_def same_def)

lemma ensure_image_same: "ensure_image h s = Inr (ok, s') \<Longrightarrow> same s s'"
  unfolding ensure_image_def
  by (auto split: sum.splits option.splits if_splits draw_attr.splits
      dest!: apply_width_spec_same new_image_block_same simp: same_def)

lemma place_fragment_same:
  "place_fragment ts fnt col parts i s = Inr (e, bx, s') \<Longrightarrow> same s s'"
  unfolding place_fragment_def
  by (auto simp: Let_def same_def draw_on_def split: option.splits sum.splits prod.splits if_splits
      dest!: ensure_image_same)

lemma place_line_same:
  "place_line ts fnt col line s = Inr (bx, s') \<Longrightarrow> same s s'"
  unfolding place_line_def
  by (auto simp: Let_def same_def draw_on_def split: option.splits sum.splits prod.splits if_splits
      dest!: ensure_image_same newline_same)

lemma wrap_lines_same:
  "wrap_lines ts fnt col eb parts i blocks s = Inr (b, s') \<Longrightarrow> same s s'"
proof (induction ts fnt col eb parts i blocks s rule: wrap_lines.induct)
  case (1 ts fnt col end_block parts start_index blocks s)
  show ?case
  proof (cases "start_index < length parts")
    case False
    with "1.prems" show ?thesis by (simp add: wrap_lines.simps)
  next
    case True
    with "1.prems" obtain e bx s3 where
      pf: "place_fragment ts fnt col parts start_index s = Inr (e, bx, s3)"
      by (subst (asm) wrap_lines.simps) (auto split: sum.splits)
    note s3 = place_fragment_same[OF pf]
    show ?thesis
    proof (cases "e < length parts")
      case lt: True
      with "1.prems" True pf obtain s4 where
        nl: "newline (-1) s3 = Inr s4" and
        rec: "wrap_lines ts fnt col end_block parts e (blocks @ [bx]) s4 = Inr (b, s')"
        by (subst (asm) wrap_lines.simps) (auto split: sum.splits)
      from "1.IH"[OF True pf refl refl lt nl rec] newline_same[OF nl] s3
      show ?thesis by (blast intro: same_trans)
    next
      case False
      with "1.prems" True pf have "same s3 s'"
        by (subst (asm) wrap_lines.simps)
          (auto split: sum.splits if_splits dest!: newline_same simp: same_def)
      with s3 show ?thesis by (blast intro: same_trans)
    qed
  qed
qed

lemma pre_lines_same:
  "pre_lines ts fnt col ls blocks s = Inr (b, s') \<Longrightarrow> same s s'"
proof (induction ls arbitrary: blocks s)
  case Nil
  then show ?case by simp
next
  case (Cons l ls)
  then show ?case
    by (auto split: sum.splits dest!: place_line_same intro: same_trans)
qed

lemma render_text_same:
  "render_text ts txt col eb fnt s = Inr (b, s') \<Longrightarrow> same s s'"
  unfolding render_text_def
  by (auto split: option.splits if_splits sum.splits dest: wrap_lines_same pre_lines_same)

lemma render_text_stmt_same:
  "render_text_stmt ts txt col eb fnt s = Inr s' \<Longrightarrow> same s s'"
  unfolding render_text_stmt_def
  by (cases "render_text ts txt col eb fnt s") (auto dest: render_text_same)


subsection \<open>What the handlers leave alone\<close>



lemma same_frame: "same s s' \<Longrightarrow> frame s s'"
  by (simp add: same_def frame_def)

lemma frame_refl [simp]: "frame s s"
  by (simp add: frame_def)

lemma frame_trans:
  assumes a: "frame s s1" and b: "frame s1 s2"
  shows "frame s s2"
proof -
  from a b have lt: "list_types s1 = list_types s" "list_types s2 = list_types s"
    by (simp_all add: frame_def)
  then have ot: "ordered_top s1 = ordered_top s"
    by (simp add: ordered_top_def)
  from a obtain r where r: "links s1 = links s @ r"
    by (auto simp: frame_def)
  from b obtain r' where r': "links s2 = links s1 @ r'"
    by (auto simp: frame_def)
  have "links s2 = links s @ (r @ r')"
    by (simp add: r r')
  then have lk: "\<exists>q. links s2 = links s @ q" ..
  have ix: "width_spec_index s \<le> width_spec_index s2"
    using a b unfolding frame_def by linarith
  have nums: "\<not> ordered_top s \<longrightarrow> list_item_nums s2 = list_item_nums s"
    using a b ot unfolding frame_def by metis
  have others: "indent s2 = indent s" "image_width s2 = image_width s"
    "width_spec s2 = width_spec s" "store s2 = store s"
    "length (list_item_nums s2) = length (list_item_nums s)"
    "butlast (list_item_nums s2) = butlast (list_item_nums s)"
    using a b unfolding frame_def by metis+
  from lt lk ix nums others show ?thesis
    unfolding frame_def by blast
qed

lemma keepsD: "keeps f \<Longrightarrow> f s = Inr s' \<Longrightarrow> frame s s'"
  by (simp add: keeps_def)

lemma thnE:
  assumes "thn f g s = Inr s'"
  obtains s1 where "f s = Inr s1" and "g s1 = Inr s'"
  using assms by (auto simp: thn_def split: sum.splits)

lemma keeps_thn:
  assumes f: "keeps f" and g: "keeps g"
  shows "keeps (thn f g)"
  unfolding keeps_def
proof (intro allI impI)
  fix s s'
  assume "thn f g s = Inr s'"
  then obtain s1 where "f s = Inr s1" and "g s1 = Inr s'"
    by (rule thnE)
  with f g show "frame s s'"
    by (blast intro: frame_trans keepsD)
qed

lemma keeps_render [simp]: "keeps (render_text_stmt ts txt col eb fnt)"
  unfolding keeps_def by (blast intro: same_frame render_text_stmt_same)

lemma keeps_newline [simp]: "keeps (newline h)"
  unfolding keeps_def by (blast intro: same_frame newline_same)

lemma keeps_Inr [simp]: "keeps Inr"
  by (simp add: keeps_def)



lemma sameD:
  assumes "same s s'"
  shows "indent s' = indent s" and "list_types s' = list_types s"
    and "list_item_nums s' = list_item_nums s" and "image_width s' = image_width s"
    and "width_spec s' = width_spec s" and "store s' = store s" and "links s' = links s"
    and "width_spec_index s \<le> width_spec_index s'"
  using assms by (simp_all add: same_def)

lemma frameD:
  assumes "frame s s'"
  shows "indent s' = indent s" and "list_types s' = list_types s"
    and "image_width s' = image_width s" and "width_spec s' = width_spec s"
    and "store s' = store s" and "width_spec_index s \<le> width_spec_index s'"
    and "length (list_item_nums s') = length (list_item_nums s)"
    and "butlast (list_item_nums s') = butlast (list_item_nums s)"
    and "\<not> ordered_top s \<Longrightarrow> list_item_nums s' = list_item_nums s"
    and "\<exists>r. links s' = links s @ r"
  using assms by (simp_all add: frame_def)

lemma frameI:
  assumes "indent s' = indent s" and "list_types s' = list_types s"
    and "image_width s' = image_width s" and "width_spec s' = width_spec s"
    and "store s' = store s" and "width_spec_index s \<le> width_spec_index s'"
    and "length (list_item_nums s') = length (list_item_nums s)"
    and "butlast (list_item_nums s') = butlast (list_item_nums s)"
    and "\<not> ordered_top s \<Longrightarrow> list_item_nums s' = list_item_nums s"
    and "\<exists>r. links s' = links s @ r"
  shows "frame s s'"
  using assms unfolding frame_def by blast



lemma keeps_handle_a: "keeps kids \<Longrightarrow> keeps (handle_a cfg ts n kids)"
proof -
  assume k: "keeps kids"
  have "keeps (\<lambda>s. case map_of (node_attrib n) ''href'' of
                 Some href \<Rightarrow>
                   (case render_text ts (node_text n) (link_color cfg) False DefaultFont s of
                      Inl e \<Rightarrow> Inl e
                    | Inr (blocks, s1) \<Rightarrow> Inr (s1\<lparr>links := links s1 @ [(href, blocks)]\<rparr>))
               | None \<Rightarrow> render_text_stmt ts (node_text n) (color cfg) False DefaultFont s)"
    unfolding keeps_def
    by (auto split: option.splits sum.splits dest!: render_text_same render_text_stmt_same
        simp: same_def frame_def)
  with k show ?thesis
    unfolding handle_a_def by (intro keeps_thn) simp_all
qed

lemma keeps_handle_code: "keeps kids \<Longrightarrow> keeps (handle_code cfg ts n kids)"
  unfolding handle_code_def by (intro keeps_thn) simp_all

lemma keeps_handle_em: "keeps kids \<Longrightarrow> keeps (handle_em cfg ts n kids)"
  unfolding handle_em_def by (intro keeps_thn) simp_all

lemma keeps_handle_strong: "keeps kids \<Longrightarrow> keeps (handle_strong cfg ts n kids)"
  unfolding handle_strong_def by (intro keeps_thn) simp_all

lemma keeps_handle_p: "keeps kids \<Longrightarrow> keeps (handle_p cfg ts n kids)"
  unfolding handle_p_def by (intro keeps_thn) simp_all

lemma keeps_at_line_start [simp]: "keeps at_line_start_newline"
  unfolding keeps_def at_line_start_newline_def
  by (auto split: option.splits if_splits dest!: newline_same intro: same_frame)

lemma keeps_handle_div: "keeps kids \<Longrightarrow> keeps (handle_div kids)"
  unfolding handle_div_def by (intro keeps_thn) simp_all

lemma keeps_handle_h [simp]: "keeps (handle_h cfg ts n)"
  unfolding keeps_def
proof (intro allI impI)
  fix s s'
  assume h: "handle_h cfg ts n s = Inr s'"
  then obtain fnt where
    "thn (render_text_stmt ts (node_text n) (color cfg) True fnt) (newline (-1)) s = Inr s'"
    by (auto simp: handle_h_def split: option.splits)
  moreover have "keeps (thn (render_text_stmt ts (node_text n) (color cfg) True fnt) (newline (-1)))"
    by (intro keeps_thn) simp_all
  ultimately show "frame s s'"
    by (rule keepsD[rotated])
qed

lemma keeps_handle_hr [simp]: "keeps (handle_hr cfg)"
proof -
  have "keeps (\<lambda>s. case (image_draw s, start_x s, end_x s) of
                   (Draw, Some sx, Some ex) \<Rightarrow>
                     Inr (draw_on
                            (DrawLine (of_int (sx + hr_padding cfg))
                               (of_int (image_y s) + of_int (margin_bottom cfg) / 2)
                               (of_int (ex - hr_padding cfg))
                               (of_int (image_y s) + of_int (margin_bottom cfg) / 2)
                               (hr_color cfg)) s)
                 | _ \<Rightarrow> Inl AttributeError)"
    unfolding keeps_def
    by (auto split: prod.splits draw_attr.splits option.splits intro: same_frame)
  then show ?thesis
    unfolding handle_hr_def by (intro keeps_thn) simp_all
qed





lemma keeps_handle_unknown: "keeps kids \<Longrightarrow> keeps (handle_unknown n kids)"
proof -
  assume k: "keeps kids"
  show ?thesis
    unfolding keeps_def
  proof (intro allI impI)
    fix s s'
    assume "handle_unknown n kids s = Inr s'"
    then have "frame (s\<lparr>stdout := stdout s @ [''Unknown tag: '' @ node_tag n]\<rparr>) s'"
      using k by (simp add: handle_unknown_def keeps_def)
    then show "frame s s'"
      by (simp add: frame_def ordered_top_def)
  qed
qed

lemma frame_indented:
  assumes a: "same (s\<lparr>indent := indent s + d\<rparr>) s1"
    and b: "frame s1 s2"
    and c: "same (s2\<lparr>indent := indent s2 - d\<rparr>) s'"
  shows "frame s s'"
proof (rule frameI)
  note A = sameD[OF a, simplified]
  note B = frameD[OF b]
  note C = sameD[OF c, simplified]
  have ot: "ordered_top s1 = ordered_top s"
    by (simp add: ordered_top_def A(2))
  show "indent s' = indent s"
    by (simp add: C(1) B(1) A(1))
  show "list_types s' = list_types s"
    by (simp add: C(2) B(2) A(2))
  show "image_width s' = image_width s"
    by (simp add: C(4) B(3) A(4))
  show "width_spec s' = width_spec s"
    by (simp add: C(5) B(4) A(5))
  show "store s' = store s"
    by (simp add: C(6) B(5) A(6))
  show "width_spec_index s \<le> width_spec_index s'"
    using A(8) B(6) C(8) by linarith
  show "length (list_item_nums s') = length (list_item_nums s)"
    by (simp add: C(3) B(7) A(3))
  show "butlast (list_item_nums s') = butlast (list_item_nums s)"
    by (simp add: C(3) B(8) A(3))
  show "list_item_nums s' = list_item_nums s" if "\<not> ordered_top s"
    using that B(9) ot by (simp add: C(3) A(3))
  from B(10) obtain r where "links s2 = links s1 @ r" ..
  then have "links s' = links s @ r"
    by (simp add: C(7) A(7))
  then show "\<exists>r. links s' = links s @ r" ..
qed

lemma keeps_handle_blockquote: "keeps kids \<Longrightarrow> keeps (handle_blockquote cfg kids)"
proof -
  assume k: "keeps kids"
  show ?thesis
    unfolding keeps_def
  proof (intro allI impI)
    fix s s'
    assume h: "handle_blockquote cfg kids s = Inr s'"
    then obtain s1 s2 where
      a: "newline (-1) (s\<lparr>indent := indent s + blockquote_indent cfg\<rparr>) = Inr s1" and
      b: "kids s1 = Inr s2" and
      c: "newline (-1) (s2\<lparr>indent := indent s2 - blockquote_indent cfg\<rparr>) = Inr s'"
      unfolding handle_blockquote_def by (elim thnE)
    from newline_same[OF a] keepsD[OF k b] newline_same[OF c]
    show "frame s s'"
      by (rule frame_indented)
  qed
qed

lemma keeps_handle_pre: "keeps kids \<Longrightarrow> keeps (handle_pre cfg kids)"
proof -
  assume k: "keeps kids"
  show ?thesis
    unfolding keeps_def
  proof (intro allI impI)
    fix s s'
    assume h: "handle_pre cfg kids s = Inr s'"
    then obtain s1 s2 s3 where
      a: "newline (-1) (s\<lparr>in_pre := True, indent := indent s + code_indent cfg\<rparr>) = Inr s1" and
      b: "kids s1 = Inr s2" and
      c: "newline (-1) (s2\<lparr>indent := indent s2 - code_indent cfg\<rparr>) = Inr s3" and
      d: "s' = s3\<lparr>in_pre := in_pre s\<rparr>"
      unfolding handle_pre_def Let_def by (elim thnE) auto
    from newline_same[OF a] have a': "same (s\<lparr>indent := indent s + code_indent cfg\<rparr>) s1"
      by (simp add: same_def)
    from newline_same[OF c] d have c': "same (s2\<lparr>indent := indent s2 - code_indent cfg\<rparr>) s'"
      by (simp add: same_def)
    from a' keepsD[OF k b] c'
    show "frame s s'"
      by (rule frame_indented)
  qed
qed

lemma keeps_handle_ul: "keeps kids \<Longrightarrow> keeps (handle_ul cfg kids)"
proof -
  assume k: "keeps kids"
  show ?thesis
    unfolding keeps_def
  proof (intro allI impI)
    fix s s'
    assume h: "handle_ul cfg kids s = Inr s'"
    then obtain s1 s2 where
      a: "newline (-1) (s\<lparr>indent := indent s + list_indent cfg\<rparr>) = Inr s1" and
      b: "kids (s1\<lparr>list_types := list_types s1 @ [''unordered'']\<rparr>) = Inr s2" and
      c: "newline (-1) (s2\<lparr>list_types := butlast (list_types s2),
                             indent := indent s2 - list_indent cfg\<rparr>) = Inr s'"
      unfolding handle_ul_def by (elim thnE)
    note B = frameD[OF keepsD[OF k b], simplified]
    have nt: "\<not> ordered_top (s1\<lparr>list_types := list_types s1 @ [''unordered'']\<rparr>)"
      by (simp add: ordered_top_def)
    have "frame s1 (s2\<lparr>list_types := butlast (list_types s2)\<rparr>)"
    proof (rule frameI)
      show "list_item_nums (s2\<lparr>list_types := butlast (list_types s2)\<rparr>) = list_item_nums s1"
        using B(9)[OF nt] by simp
      then show "length (list_item_nums (s2\<lparr>list_types := butlast (list_types s2)\<rparr>))
                   = length (list_item_nums s1)"
        and "butlast (list_item_nums (s2\<lparr>list_types := butlast (list_types s2)\<rparr>))
                   = butlast (list_item_nums s1)"
        by simp_all
    qed (simp_all add: B)
    moreover from newline_same[OF c]
    have "same (s2\<lparr>list_types := butlast (list_types s2)\<rparr>
                  \<lparr>indent := indent (s2\<lparr>list_types := butlast (list_types s2)\<rparr>) - list_indent cfg\<rparr>) s'"
      by simp
    ultimately show "frame s s'"
      using newline_same[OF a] by (blast intro: frame_indented)
  qed
qed

lemma keeps_handle_ol: "keeps kids \<Longrightarrow> keeps (handle_ol cfg kids)"
proof -
  assume k: "keeps kids"
  show ?thesis
    unfolding keeps_def
  proof (intro allI impI)
    fix s s'
    assume h: "handle_ol cfg kids s = Inr s'"
    then obtain s1 s2 where
      a: "newline (-1) (s\<lparr>indent := indent s + list_indent cfg\<rparr>) = Inr s1" and
      b: "kids (s1\<lparr>list_types := list_types s1 @ [''ordered''],
                     list_item_nums := list_item_nums s1 @ [1]\<rparr>) = Inr s2" and
      c: "newline (-1) (s2\<lparr>list_item_nums := butlast (list_item_nums s2),
                             list_types := butlast (list_types s2),
                             indent := indent s2 - list_indent cfg\<rparr>) = Inr s'"
      unfolding handle_ol_def by (elim thnE)
    note B = frameD[OF keepsD[OF k b], simplified]
    let ?t = "s2\<lparr>list_item_nums := butlast (list_item_nums s2),
                   list_types := butlast (list_types s2)\<rparr>"
    have "frame s1 ?t"
    proof (rule frameI)
      show n: "list_item_nums ?t = list_item_nums s1"
        using B(8) by simp
      show "length (list_item_nums ?t) = length (list_item_nums s1)"
        by (simp only: n)
      show "butlast (list_item_nums ?t) = butlast (list_item_nums s1)"
        by (simp only: n)
    qed (simp_all add: B)
    moreover from newline_same[OF c]
    have "same (?t\<lparr>indent := indent ?t - list_indent cfg\<rparr>) s'"
      by simp
    ultimately show "frame s s'"
      using newline_same[OF a] by (blast intro: frame_indented)
  qed
qed



lemma py_nth_last: "py_nth xs (-1) = Inr x \<longleftrightarrow> xs \<noteq> [] \<and> x = last xs"
proof (cases "xs = []")
  case True
  then show ?thesis by (simp add: py_nth_def)
next
  case False
  then have "nat (int (length xs) + - 1) = length xs - 1" and "1 \<le> int (length xs)"
    by (auto simp: Suc_le_eq)
  with False show ?thesis
    by (auto simp: py_nth_def last_conv_nth)
qed

lemma draw_bullet_same: "draw_bullet cfg ts s = Inr s' \<Longrightarrow> same s s'"
  unfolding draw_bullet_def
  by (auto simp: Let_def same_def draw_on_def split: sum.splits prod.splits if_splits
      dest!: ensure_image_same)

lemma draw_number_effect:
  assumes "draw_number cfg ts s = Inr s'"
  shows "list_item_nums s \<noteq> []"
    and "list_item_nums s' = butlast (list_item_nums s) @ [last (list_item_nums s) + 1]"
    and "same s (s'\<lparr>list_item_nums := list_item_nums s\<rparr>)"
proof -
  from assms obtain num where n: "py_nth (list_item_nums s) (-1) = Inr num"
    by (auto simp: draw_number_def split: sum.splits)
  then show "list_item_nums s \<noteq> []"
    by (simp add: py_nth_last)
  from assms n obtain s1 where
    e: "ensure_image (snd (ts DefaultFont (fmt_d num))) s = Inr (True, s1)" and
    s': "s' = (draw_on (DrawText (image_x s1 - fst (ts DefaultFont (fmt_d num)) - bullet_outdent cfg)
                 (image_y s1) (fmt_d num @ ''.'') DefaultFont (color cfg)) s1)
              \<lparr>list_item_nums := butlast (list_item_nums s1) @ [last (list_item_nums s1) + 1]\<rparr>"
    by (auto simp: draw_number_def Let_def draw_on_def split: sum.splits prod.splits if_splits)
  note E = sameD[OF ensure_image_same[OF e]]
  show "list_item_nums s' = butlast (list_item_nums s) @ [last (list_item_nums s) + 1]"
    by (simp add: s' E(3))
  show "same s (s'\<lparr>list_item_nums := list_item_nums s\<rparr>)"
    using E by (simp add: s' same_def draw_on_def)
qed

lemma draw_number_frame:
  assumes d: "draw_number cfg ts s = Inr s'" and o: "ordered_top s"
  shows "frame s s'"
proof (rule frameI)
  note N = draw_number_effect[OF d]
  note S = sameD[OF N(3), simplified]
  show "length (list_item_nums s') = length (list_item_nums s)"
    using N(1) by (simp add: N(2))
  show "butlast (list_item_nums s') = butlast (list_item_nums s)"
    by (simp add: N(2))
  show "list_item_nums s' = list_item_nums s" if "\<not> ordered_top s"
    using that o by simp
  show "\<exists>r. links s' = links s @ r"
    by (simp add: S(7))
qed (simp_all add: sameD[OF draw_number_effect(3)[OF d], simplified])

lemma keeps_handle_li: "keeps kids \<Longrightarrow> keeps (handle_li cfg ts n kids)"
proof -
  assume k: "keeps kids"
  have tail: "keeps (thn (render_text_stmt ts (node_text n) (color cfg) True DefaultFont) kids)"
    using k by (intro keeps_thn) simp_all
  show ?thesis
    unfolding keeps_def
  proof (intro allI impI)
    fix s s'
    assume h: "handle_li cfg ts n kids s = Inr s'"
    then obtain lt where lt: "py_nth (list_types s) (-1) = Inr lt"
      by (auto simp: handle_li_def split: sum.splits)
    then have top: "list_types s \<noteq> []" "lt = last (list_types s)"
      by (simp_all add: py_nth_last)
    from h lt obtain s3 where
      body: "(if lt = ''unordered'' then
                 thn (draw_bullet cfg ts)
                  (thn (render_text_stmt ts (node_text n) (color cfg) True DefaultFont) kids)
               else if lt = ''ordered'' then
                 thn (draw_number cfg ts)
                  (thn (render_text_stmt ts (node_text n) (color cfg) True DefaultFont) kids)
               else Inr) s = Inr s3" and
      nl: "newline (list_item_margin_bottom cfg) s3 = Inr s'"
      by (auto simp: handle_li_def elim: thnE)
    have "frame s s3"
    proof (cases "lt = ''unordered''")
      case True
      with body obtain s1 where
        "draw_bullet cfg ts s = Inr s1" and
        "thn (render_text_stmt ts (node_text n) (color cfg) True DefaultFont) kids s1 = Inr s3"
        by (auto elim: thnE)
      with tail show ?thesis
        by (blast intro: frame_trans same_frame draw_bullet_same keepsD)
    next
      case False
      show ?thesis
      proof (cases "lt = ''ordered''")
        case True
        with body obtain s1 where
          dn: "draw_number cfg ts s = Inr s1" and
          r: "thn (render_text_stmt ts (node_text n) (color cfg) True DefaultFont) kids s1 = Inr s3"
          by (auto elim: thnE)
        from True top have "ordered_top s"
          by (simp add: ordered_top_def)
        from draw_number_frame[OF dn this] keepsD[OF tail r] show ?thesis
          by (rule frame_trans)
      next
        case False
        with \<open>lt \<noteq> ''unordered''\<close> body show ?thesis
          by simp
      qed
    qed
    with newline_same[OF nl] show "frame s s'"
      by (blast intro: frame_trans same_frame)
  qed
qed


lemma keeps_handlers: "keeps kids \<Longrightarrow> keeps (handlers cfg ts tg n kids)"
  unfolding handlers_def
  by (simp add: keeps_handle_a keeps_handle_code keeps_handle_blockquote keeps_handle_em
      keeps_handle_div keeps_handle_li keeps_handle_ol keeps_handle_p keeps_handle_pre
      keeps_handle_strong keeps_handle_ul keeps_handle_unknown)

lemma walk_frame:
  "handle_node cfg ts n s = Inr t \<Longrightarrow> frame s t"
  and walk_frame_children: "handle_children cfg ts cs s = Inr t \<Longrightarrow> frame s t"
proof (induction cfg ts n s and cfg ts cs s arbitrary: t and t
       rule: handle_node_handle_children.induct)
  case (1 cfg ts tg tx ta at ch s)
  have k: "keeps (\<lambda>x. handle_children cfg ts ch x)"
    unfolding keeps_def using "1.IH" by blast
  from "1.prems" keepsD[OF keeps_handlers[OF k]] show ?case
    by (simp add: handle_node.simps)
next
  case (2 cfg ts s)
  then show ?case by simp
next
  case (3 cfg ts c cs s)
  from "3.prems" obtain s1 where
    a: "handle_node cfg ts c s = Inr s1" and b: "handle_children cfg ts cs s1 = Inr t"
    by (auto split: sum.splits)
  from "3.IH"(1)[OF a] "3.IH"(2)[OF a b] show ?case
    by (rule frame_trans)
qed


subsection \<open>How far the handlers advance a list ordinal\<close>

declare items_here.simps [simp del]

lemma bump_0 [simp]: "bump 0 xs = xs"
  by (simp add: bump_def)

lemma bump_bump: "bump c2 (bump c1 xs) = bump (c1 + c2) xs"
  by (simp add: bump_def)

lemma advD:
  assumes "adv c s s'"
  shows "frame s s'" and "ordered_top s \<Longrightarrow> list_item_nums s' = bump c (list_item_nums s)"
  using assms by (simp_all add: adv_def)

lemma frame_ordered_top: "frame s s' \<Longrightarrow> ordered_top s' = ordered_top s"
  by (simp add: ordered_top_def frameD(2))

lemma adv_trans:
  assumes a: "adv c1 s s1" and b: "adv c2 s1 s2"
  shows "adv (c1 + c2) s s2"
  unfolding adv_def
proof (intro conjI impI)
  show "frame s s2"
    using advD(1)[OF a] advD(1)[OF b] by (rule frame_trans)
  assume o: "ordered_top s"
  then have "ordered_top s1"
    using frame_ordered_top[OF advD(1)[OF a]] by simp
  from advD(2)[OF b this] advD(2)[OF a o]
  show "list_item_nums s2 = bump (c1 + c2) (list_item_nums s)"
    by (simp add: bump_bump)
qed

lemma same_adv: "same s s' \<Longrightarrow> adv 0 s s'"
  by (simp add: adv_def same_frame sameD(3))

lemma countsD: "counts c f \<Longrightarrow> f s = Inr s' \<Longrightarrow> adv c s s'"
  by (simp add: counts_def)

lemma counts_keeps: "counts c f \<Longrightarrow> keeps f"
  by (simp add: counts_def keeps_def adv_def)

lemma counts_thn:
  assumes f: "counts c1 f" and g: "counts c2 g"
  shows "counts (c1 + c2) (thn f g)"
  unfolding counts_def
proof (intro allI impI)
  fix s s'
  assume "thn f g s = Inr s'"
  then obtain s1 where "f s = Inr s1" and "g s1 = Inr s'"
    by (rule thnE)
  with f g show "adv (c1 + c2) s s'"
    by (blast intro: adv_trans countsD)
qed

lemma counts_thn0:
  assumes f: "counts 0 f" and g: "counts c g"
  shows "counts c (thn f g)"
  using counts_thn[OF f g] by simp

lemma counts_thn_0:
  assumes f: "counts c f" and g: "counts 0 g"
  shows "counts c (thn f g)"
  using counts_thn[OF f g] by simp

lemma counts_render [simp]: "counts 0 (render_text_stmt ts txt col eb fnt)"
  unfolding counts_def by (blast intro: same_adv render_text_stmt_same)

lemma counts_newline [simp]: "counts 0 (newline h)"
  unfolding counts_def by (blast intro: same_adv newline_same)

lemma counts_handle_a: "counts c kids \<Longrightarrow> counts c (handle_a cfg ts n kids)"
proof -
  assume k: "counts c kids"
  have "counts 0 (\<lambda>s. case map_of (node_attrib n) ''href'' of
                 Some href \<Rightarrow>
                   (case render_text ts (node_text n) (link_color cfg) False DefaultFont s of
                      Inl e \<Rightarrow> Inl e
                    | Inr (blocks, s1) \<Rightarrow> Inr (s1\<lparr>links := links s1 @ [(href, blocks)]\<rparr>))
               | None \<Rightarrow> render_text_stmt ts (node_text n) (color cfg) False DefaultFont s)"
    unfolding counts_def adv_def
    by (auto split: option.splits sum.splits dest!: render_text_same render_text_stmt_same
        simp: same_def frame_def)
  with k show ?thesis
    unfolding handle_a_def by (intro counts_thn0 counts_thn_0) simp_all
qed

lemma counts_handle_code: "counts c kids \<Longrightarrow> counts c (handle_code cfg ts n kids)"
  unfolding handle_code_def by (intro counts_thn0 counts_thn_0) simp_all

lemma counts_handle_em: "counts c kids \<Longrightarrow> counts c (handle_em cfg ts n kids)"
  unfolding handle_em_def by (intro counts_thn0 counts_thn_0) simp_all

lemma counts_handle_strong: "counts c kids \<Longrightarrow> counts c (handle_strong cfg ts n kids)"
  unfolding handle_strong_def by (intro counts_thn0 counts_thn_0) simp_all


lemma counts_thn00:
  assumes f: "counts 0 f" and g: "counts 0 g"
  shows "counts 0 (thn f g)"
  using counts_thn[OF f g] by simp

lemma counts_handle_p: "counts c kids \<Longrightarrow> counts c (handle_p cfg ts n kids)"
proof -
  assume k: "counts c kids"
  have "counts 0 (thn (render_text_stmt ts (node_tail n) (color cfg) True DefaultFont)
                     (newline (margin_bottom cfg)))"
    by (intro counts_thn00) simp_all
  with k have "counts c (thn kids
        (thn (render_text_stmt ts (node_tail n) (color cfg) True DefaultFont)
          (newline (margin_bottom cfg))))"
    by (rule counts_thn_0)
  then show ?thesis
    unfolding handle_p_def by (rule counts_thn0[OF counts_render])
qed

lemma counts_at_line_start [simp]: "counts 0 at_line_start_newline"
  unfolding counts_def at_line_start_newline_def
  by (auto split: option.splits if_splits dest!: newline_same intro: same_adv)

lemma counts_handle_div: "counts c kids \<Longrightarrow> counts c (handle_div kids)"
  unfolding handle_div_def by (intro counts_thn0 counts_thn_0) simp_all

lemma counts_handle_h [simp]: "counts 0 (handle_h cfg ts n)"
  unfolding counts_def
proof (intro allI impI)
  fix s s'
  assume h: "handle_h cfg ts n s = Inr s'"
  then obtain fnt where
    "thn (render_text_stmt ts (node_text n) (color cfg) True fnt) (newline (-1)) s = Inr s'"
    by (auto simp: handle_h_def split: option.splits)
  moreover have "counts 0 (thn (render_text_stmt ts (node_text n) (color cfg) True fnt) (newline (-1)))"
    by (intro counts_thn00) simp_all
  ultimately show "adv 0 s s'"
    by (rule countsD[rotated])
qed

lemma counts_handle_hr [simp]: "counts 0 (handle_hr cfg)"
proof -
  have "counts 0 (\<lambda>s. case (image_draw s, start_x s, end_x s) of
                   (Draw, Some sx, Some ex) \<Rightarrow>
                     Inr (draw_on
                            (DrawLine (of_int (sx + hr_padding cfg))
                               (of_int (image_y s) + of_int (margin_bottom cfg) / 2)
                               (of_int (ex - hr_padding cfg))
                               (of_int (image_y s) + of_int (margin_bottom cfg) / 2)
                               (hr_color cfg)) s)
                 | _ \<Rightarrow> Inl AttributeError)"
    unfolding counts_def
    by (auto split: prod.splits draw_attr.splits option.splits intro: same_adv)
  then show ?thesis
    unfolding handle_hr_def by (intro counts_thn00) simp_all
qed

lemma counts_handle_unknown: "counts c kids \<Longrightarrow> counts c (handle_unknown n kids)"
proof -
  assume k: "counts c kids"
  show ?thesis
    unfolding counts_def
  proof (intro allI impI)
    fix s s'
    assume "handle_unknown n kids s = Inr s'"
    then have "adv c (s\<lparr>stdout := stdout s @ [''Unknown tag: '' @ node_tag n]\<rparr>) s'"
      using k by (simp add: handle_unknown_def counts_def)
    then show "adv c s s'"
      by (simp add: adv_def frame_def ordered_top_def)
  qed
qed

lemma adv_indented:
  assumes a: "same (s\<lparr>indent := indent s + d\<rparr>) s1"
    and b: "adv c s1 s2"
    and c: "same (s2\<lparr>indent := indent s2 - d\<rparr>) s'"
  shows "adv c s s'"
  unfolding adv_def
proof (intro conjI impI)
  show "frame s s'"
    using a advD(1)[OF b] c by (rule frame_indented)
  assume o: "ordered_top s"
  note A = sameD[OF a, simplified]
  note C = sameD[OF c, simplified]
  from o have "ordered_top s1"
    by (simp add: ordered_top_def A(2))
  from advD(2)[OF b this] show "list_item_nums s' = bump c (list_item_nums s)"
    by (simp add: C(3) A(3))
qed

lemma counts_handle_blockquote: "counts c kids \<Longrightarrow> counts c (handle_blockquote cfg kids)"
proof -
  assume k: "counts c kids"
  show ?thesis
    unfolding counts_def
  proof (intro allI impI)
    fix s s'
    assume h: "handle_blockquote cfg kids s = Inr s'"
    then obtain s1 s2 where
      a: "newline (-1) (s\<lparr>indent := indent s + blockquote_indent cfg\<rparr>) = Inr s1" and
      b: "kids s1 = Inr s2" and
      c: "newline (-1) (s2\<lparr>indent := indent s2 - blockquote_indent cfg\<rparr>) = Inr s'"
      unfolding handle_blockquote_def by (elim thnE)
    from newline_same[OF a] countsD[OF k b] newline_same[OF c]
    show "adv c s s'"
      by (rule adv_indented)
  qed
qed

lemma counts_handle_pre: "counts c kids \<Longrightarrow> counts c (handle_pre cfg kids)"
proof -
  assume k: "counts c kids"
  show ?thesis
    unfolding counts_def
  proof (intro allI impI)
    fix s s'
    assume h: "handle_pre cfg kids s = Inr s'"
    then obtain s1 s2 s3 where
      a: "newline (-1) (s\<lparr>in_pre := True, indent := indent s + code_indent cfg\<rparr>) = Inr s1" and
      b: "kids s1 = Inr s2" and
      c: "newline (-1) (s2\<lparr>indent := indent s2 - code_indent cfg\<rparr>) = Inr s3" and
      d: "s' = s3\<lparr>in_pre := in_pre s\<rparr>"
      unfolding handle_pre_def Let_def by (elim thnE) auto
    from newline_same[OF a] have a': "same (s\<lparr>indent := indent s + code_indent cfg\<rparr>) s1"
      by (simp add: same_def)
    from newline_same[OF c] d have c': "same (s2\<lparr>indent := indent s2 - code_indent cfg\<rparr>) s'"
      by (simp add: same_def)
    from a' countsD[OF k b] c'
    show "adv c s s'"
      by (rule adv_indented)
  qed
qed

lemma handle_ul_nums:
  assumes k: "keeps kids" and h: "handle_ul cfg kids s = Inr s'"
  shows "list_item_nums s' = list_item_nums s"
proof -
  from h obtain s1 s2 where
    a: "newline (-1) (s\<lparr>indent := indent s + list_indent cfg\<rparr>) = Inr s1" and
    b: "kids (s1\<lparr>list_types := list_types s1 @ [''unordered'']\<rparr>) = Inr s2" and
    c: "newline (-1) (s2\<lparr>list_types := butlast (list_types s2),
                           indent := indent s2 - list_indent cfg\<rparr>) = Inr s'"
    unfolding handle_ul_def by (elim thnE)
  have nt: "\<not> ordered_top (s1\<lparr>list_types := list_types s1 @ [''unordered'']\<rparr>)"
    by (simp add: ordered_top_def)
  from frameD(9)[OF keepsD[OF k b] nt] have "list_item_nums s2 = list_item_nums s1"
    by simp
  with sameD(3)[OF newline_same[OF a]] sameD(3)[OF newline_same[OF c]]
  show ?thesis by simp
qed

lemma handle_ol_nums:
  assumes k: "keeps kids" and h: "handle_ol cfg kids s = Inr s'"
  shows "list_item_nums s' = list_item_nums s"
proof -
  from h obtain s1 s2 where
    a: "newline (-1) (s\<lparr>indent := indent s + list_indent cfg\<rparr>) = Inr s1" and
    b: "kids (s1\<lparr>list_types := list_types s1 @ [''ordered''],
                   list_item_nums := list_item_nums s1 @ [1]\<rparr>) = Inr s2" and
    c: "newline (-1) (s2\<lparr>list_item_nums := butlast (list_item_nums s2),
                           list_types := butlast (list_types s2),
                           indent := indent s2 - list_indent cfg\<rparr>) = Inr s'"
    unfolding handle_ol_def by (elim thnE)
  from frameD(8)[OF keepsD[OF k b]] have "butlast (list_item_nums s2) = list_item_nums s1"
    by simp
  with sameD(3)[OF newline_same[OF a]] sameD(3)[OF newline_same[OF c]]
  show ?thesis by simp
qed

lemma counts_handle_ul: "keeps kids \<Longrightarrow> counts 0 (handle_ul cfg kids)"
  unfolding counts_def adv_def
  by (auto dest: keepsD[OF keeps_handle_ul] handle_ul_nums)

lemma counts_handle_ol: "keeps kids \<Longrightarrow> counts 0 (handle_ol cfg kids)"
  unfolding counts_def adv_def
  by (auto dest: keepsD[OF keeps_handle_ol] handle_ol_nums)


lemma adv_draw_number:
  assumes d: "draw_number cfg ts s = Inr s1" and o: "ordered_top s"
  shows "adv 1 s s1"
  unfolding adv_def
  using draw_number_frame[OF d o] draw_number_effect(2)[OF d] by (simp add: bump_def)

lemma counts_handle_li:
  assumes k: "counts c kids"
  shows "counts (Suc c) (handle_li cfg ts n kids)"
  unfolding counts_def
proof (intro allI impI)
  fix s s'
  assume h: "handle_li cfg ts n kids s = Inr s'"
  have fr: "frame s s'"
    using keepsD[OF keeps_handle_li[OF counts_keeps[OF k]] h] .
  have "list_item_nums s' = bump (Suc c) (list_item_nums s)" if o: "ordered_top s"
  proof -
    from o have "py_nth (list_types s) (-1) = Inr ''ordered''"
      by (simp add: py_nth_last ordered_top_def)
    with h have "thn (thn (draw_number cfg ts)
                        (thn (render_text_stmt ts (node_text n) (color cfg) True DefaultFont) kids))
                   (newline (list_item_margin_bottom cfg)) s = Inr s'"
      by (simp add: handle_li_def)
    then obtain s2 where
      b: "thn (draw_number cfg ts)
            (thn (render_text_stmt ts (node_text n) (color cfg) True DefaultFont) kids) s = Inr s2" and
      nl: "newline (list_item_margin_bottom cfg) s2 = Inr s'"
      by (rule thnE)
    from b obtain s1 where
      dn: "draw_number cfg ts s = Inr s1" and
      r: "thn (render_text_stmt ts (node_text n) (color cfg) True DefaultFont) kids s1 = Inr s2"
      by (rule thnE)
    have "counts c (thn (render_text_stmt ts (node_text n) (color cfg) True DefaultFont) kids)"
      using k by (intro counts_thn0) simp_all
    from adv_trans[OF adv_trans[OF adv_draw_number[OF dn o] countsD[OF this r]]
                      same_adv[OF newline_same[OF nl]]]
    have "adv (Suc c) s s'"
      by simp
    from advD(2)[OF this o] show ?thesis .
  qed
  with fr show "adv (Suc c) s s'"
    by (simp add: adv_def)
qed

lemma counts_handlers:
  assumes k: "counts (sum_list (map items_here ch)) kids"
  shows "counts (items_here (Node tg txt tail attrib ch)) (handlers cfg ts tg n kids)"
  unfolding handlers_def items_here.simps
  using k
  by (simp add: counts_handle_a counts_handle_code counts_handle_blockquote counts_handle_em
      counts_handle_div counts_handle_li counts_handle_p counts_handle_pre
      counts_handle_strong counts_handle_unknown
      counts_handle_ol[OF counts_keeps] counts_handle_ul[OF counts_keeps])

lemma walk_counts:
  "handle_node cfg ts n s = Inr t \<Longrightarrow> adv (items_here n) s t"
  and walk_counts_children:
    "handle_children cfg ts cs s = Inr t \<Longrightarrow> adv (sum_list (map items_here cs)) s t"
proof (induction cfg ts n s and cfg ts cs s arbitrary: t and t
       rule: handle_node_handle_children.induct)
  case (1 cfg ts tg tx ta at ch s)
  have k: "counts (sum_list (map items_here ch)) (\<lambda>x. handle_children cfg ts ch x)"
    unfolding counts_def using "1.IH" by blast
  from "1.prems" countsD[OF counts_handlers[OF k]] show ?case
    by (simp add: handle_node.simps)
next
  case (2 cfg ts s)
  then show ?case by (simp add: same_adv)
next
  case (3 cfg ts c cs s)
  from "3.prems" obtain s1 where
    a: "handle_node cfg ts c s = Inr s1" and b: "handle_children cfg ts cs s1 = Inr t"
    by (auto split: sum.splits)
  from adv_trans[OF "3.IH"(1)[OF a] "3.IH"(2)[OF a b]] show ?case
    by simp
qed


subsection \<open>The width of the final image\<close>

lemma Max_insert2:
  assumes "finite S"
  shows "Max (insert (a::int) (insert b S)) = Max (insert (max a b) S)"
proof (cases "S = {}")
  case True
  then show ?thesis by simp
next
  case False
  with assms show ?thesis
    by (simp add: max.assoc)
qed

lemma max_by_width_Max:
  "snd (snd (max_by_width e es)) = Max (set (map (snd \<circ> snd) (e # es)))"
proof (induction es arbitrary: e)
  case Nil
  then show ?case by simp
next
  case (Cons x xs)
  have m: "max (snd (snd e)) (snd (snd x)) = snd (snd (if snd (snd e) < snd (snd x) then x else e))"
    by (simp add: max_def)
  have "Max (set (map (snd \<circ> snd) (e # x # xs)))
        = Max (insert (max (snd (snd e)) (snd (snd x))) ((snd \<circ> snd) ` set xs))"
    using Max_insert2[of "(snd \<circ> snd) ` set xs" "snd (snd e)" "snd (snd x)"] by simp
  also have "\<dots> = Max (set (map (snd \<circ> snd) ((if snd (snd e) < snd (snd x) then x else e) # xs)))"
    by (simp only: m) simp
  finally show ?case
    using Cons.IH[of "if snd (snd e) < snd (snd x) then x else e"] by simp
qed

lemma init_image_width:
  assumes "init a st = Inr s"
  shows "image_width s = Max (set (map (snd \<circ> snd) (st a)))"
proof -
  from assms obtain e es where st: "st a = e # es"
    by (auto simp: init_def split: list.splits)
  with assms have "image_width s = snd (snd (max_by_width e es))"
    by (auto simp: init_def dest!: apply_width_spec_same simp: same_def)
  then show ?thesis
    by (simp only: max_by_width_Max st)
qed

lemma run_image_width:
  assumes "run cfg ts tree s = Inr s'"
  shows "image_width s' = image_width s"
proof -
  from assms obtain s1 where "new_image_block s = Inr s1" and "handle_node cfg ts tree s1 = Inr s'"
    unfolding run_def by (rule thnE)
  then show ?thesis
    using sameD(4)[OF new_image_block_same] frameD(3)[OF walk_frame] by simp
qed

lemma get_image_width:
  assumes "get_image s = Inr (f, s')"
  shows "fst (final_size f) = image_width s"
  using assms
  by (auto simp: get_image_def Let_def split: sum.splits dest!: save_image_block_same
      simp: same_def)

text \<open>
  Claim C1, as the code has it. The width of the final image is the greatest \<open>width\<close>
  field of the width-spec entries (\<open>max(width_spec, key=lambda x: x[2])[2]\<close>), for every
  non-empty width-spec; the x-offsets do not enter. For \<open>[(0, 0, 200)]\<close> it is 200.
\<close>

theorem image_width_is_max_width:
  assumes "md2png cfg ts tree a st = Inr (f, s)"
  shows "fst (final_size f) = Max (set (map (snd \<circ> snd) (st a)))"
proof -
  from assms obtain s0 s1 where
    i: "init a st = Inr s0" and r: "run cfg ts tree s0 = Inr s1" and g: "get_image s1 = Inr (f, s)"
    by (auto simp: md2png_def split: sum.splits)
  from get_image_width[OF g] run_image_width[OF r] init_image_width[OF i]
  show ?thesis by simp
qed

theorem image_width_is_max_width_witness:
  "\<exists>f s. md2png default_config (fixed_pitch 6 12) hello_doc 0 (const_store [(0, 0, 200)])
            = Inr (f, s) \<and> fst (final_size f) = 200"
proof -
  have "map_sum id (final_size \<circ> fst)
          (md2png default_config (fixed_pitch 6 12) hello_doc 0 (const_store [(0, 0, 200)]))
        = Inr (200, 40)"
    by code_simp
  then obtain f s where
    m: "md2png default_config (fixed_pitch 6 12) hello_doc 0 (const_store [(0, 0, 200)]) = Inr (f, s)"
    by (cases "md2png default_config (fixed_pitch 6 12) hello_doc 0 (const_store [(0, 0, 200)])")
       auto
  from image_width_is_max_width[OF m] have "fst (final_size f) = 200"
    by (simp add: const_store_def)
  with m show ?thesis by blast
qed

text \<open>
  The claim as stated, with the greatest right edge \<open>xOffset + width\<close>, fails for an entry
  whose x-offset is not zero: for \<open>[(0, 50, 200)]\<close> the image is 200 wide and the right
  edge of the column is 250.
\<close>

theorem image_width_ignores_x_offset:
  "map_sum id (final_size \<circ> fst)
     (md2png default_config (fixed_pitch 6 12) hello_doc 0 (const_store [(0, 50, 200)]))
     = Inr (200, 40) \<and>
   Max (right_edge ` set [(0, 50, 200)]) = 250"
proof
  show "map_sum id (final_size \<circ> fst)
     (md2png default_config (fixed_pitch 6 12) hello_doc 0 (const_store [(0, 50, 200)]))
     = Inr (200, 40)"
    by code_simp
  show "Max (right_edge ` set [(0, 50, 200)]) = 250"
    by (simp add: right_edge_def)
qed

subsection \<open>A draw request higher than a chunk\<close>

text \<open>
  Claim C2 says that a draw request of a height above the chunk capacity, made while the
  chunk is still empty, is reported and skipped and that the walk goes on. \<open>ensure_image\<close>
  prints its message and returns \<open>None\<close>, and every caller then calls a drawing method on
  that \<open>None\<close>: the walk ends with \<open>AttributeError\<close>. Here the text of a level-1 heading is
  1200 high; the request is made on the engine on which the walk starts.
\<close>

theorem oversized_draw_aborts:
  "map_sum id fst (ensure_image 1200 first_chunk_engine) = Inr False \<and>
   map_sum id (stdout \<circ> snd) (ensure_image 1200 first_chunk_engine) = Inr [capacity_message] \<and>
   map_sum id (final_size \<circ> fst)
     (md2png default_config (fixed_pitch 600 1200)
        (Node ''div'' None None [] [Node ''h1'' (Some ''Title'') None [] []]) 0
        (const_store [(0, 0, 200)]))
   = Inl AttributeError"
proof (intro conjI)
  show "map_sum id fst (ensure_image 1200 first_chunk_engine) = Inr False"
    by code_simp
  show "map_sum id (stdout \<circ> snd) (ensure_image 1200 first_chunk_engine) = Inr [capacity_message]"
    by code_simp
  show "map_sum id (final_size \<circ> fst)
     (md2png default_config (fixed_pitch 600 1200)
        (Node ''div'' None None [] [Node ''h1'' (Some ''Title'') None [] []]) 0
        (const_store [(0, 0, 200)]))
   = Inl AttributeError"
    by code_simp
qed

subsection \<open>The height of the final image\<close>







subsection \<open>Headings\<close>

lemma handlers_heading:
  assumes "tg \<in> set [''h1'', ''h2'', ''h3'', ''h4'', ''h5'', ''h6'']"
  shows "handlers cfg ts tg n kids = handle_h cfg ts n"
proof -
  from assms have "tg = ''h1'' \<or> tg = ''h2'' \<or> tg = ''h3'' \<or> tg = ''h4'' \<or> tg = ''h5'' \<or> tg = ''h6''"
    by simp
  then show ?thesis
    by (elim disjE) (simp_all add: handlers_def)
qed

lemma font_attr_heading:
  assumes "tg \<in> set [''h1'', ''h2'', ''h3'', ''h4'', ''h5'', ''h6'']"
  shows "\<exists>fnt. font_attr (tg @ ''_font'') = Some fnt"
proof -
  from assms have "tg = ''h1'' \<or> tg = ''h2'' \<or> tg = ''h3'' \<or> tg = ''h4'' \<or> tg = ''h5'' \<or> tg = ''h6''"
    by simp
  then show ?thesis
    by (elim disjE) (simp_all add: font_attr_def)
qed

text \<open>
  Claim C9. For a heading node (\<open>h1\<close> to \<open>h6\<close>) the handler renders the node's own text
  in the heading font as a block and emits a newline; children and tail text play no part,
  so the node without them is handled in the same way.
\<close>

theorem heading_renders_own_text_only:
  assumes "tg \<in> set [''h1'', ''h2'', ''h3'', ''h4'', ''h5'', ''h6'']"
  shows "(\<exists>fnt. font_attr (tg @ ''_font'') = Some fnt \<and>
            handle_node cfg ts (Node tg txt tail attrib ch) s
              = thn (render_text_stmt ts txt (color cfg) True fnt) (newline (-1)) s) \<and>
         handle_node cfg ts (Node tg txt tail attrib ch) s
           = handle_node cfg ts (Node tg txt None [] []) s"
proof -
  from font_attr_heading[OF assms] obtain fnt where fa: "font_attr (tg @ ''_font'') = Some fnt" ..
  have "handle_node cfg ts (Node tg txt tail attrib ch) s
          = thn (render_text_stmt ts txt (color cfg) True fnt) (newline (-1)) s"
    by (simp add: handle_node.simps handlers_heading[OF assms] handle_h_def fa)
  moreover have "handle_node cfg ts (Node tg txt None [] []) s
          = thn (render_text_stmt ts txt (color cfg) True fnt) (newline (-1)) s"
    by (simp add: handle_node.simps handlers_heading[OF assms] handle_h_def fa)
  ultimately show ?thesis
    using fa by simp
qed

theorem heading_renders_own_text_only_witness:
  "\<forall>s. ''h2'' \<in> set [''h1'', ''h2'', ''h3'', ''h4'', ''h5'', ''h6''] \<and>
       handle_node default_config (fixed_pitch 6 12)
         (Node ''h2'' (Some ''Title'') (Some ''tail'') []
            [Node ''em'' (Some ''nested'') None [] []]) s
       = handle_node default_config (fixed_pitch 6 12) (Node ''h2'' (Some ''Title'') None [] []) s"
proof
  fix s
  have m: "''h2'' \<in> set [''h1'', ''h2'', ''h3'', ''h4'', ''h5'', ''h6'']"
    by simp
  from heading_renders_own_text_only[OF m] m
  show "''h2'' \<in> set [''h1'', ''h2'', ''h3'', ''h4'', ''h5'', ''h6''] \<and>
       handle_node default_config (fixed_pitch 6 12)
         (Node ''h2'' (Some ''Title'') (Some ''tail'') []
            [Node ''em'' (Some ''nested'') None [] []]) s
       = handle_node default_config (fixed_pitch 6 12) (Node ''h2'' (Some ''Title'') None [] []) s"
    by blast
qed

subsection \<open>Containers and list context\<close>

text \<open>
  The two engines used for concrete runs are reached by the code: the first by
  construction and \<open>new_image_block\<close>, the second is what \<open>handle_ol\<close> hands to the children
  of a list that starts the document.
\<close>

lemma first_chunk_engine_reached:
  "(case init 0 (const_store [(0, 0, 200)]) of Inl e \<Rightarrow> Inl e | Inr s0 \<Rightarrow> new_image_block s0)
   = Inr first_chunk_engine"
  by (simp add: init_def apply_width_spec_def py_nth_def new_image_block_def
      save_image_block_def first_chunk_engine_def const_store_def IMAGE_BLOCK_HEIGHT_def Let_def
      fun_eq_iff)

lemma in_list_engine_reached:
  "handle_ol default_config kids first_chunk_engine
   = thn (\<lambda>_. kids in_list_engine)
       (\<lambda>s. newline (-1)
               (s\<lparr>list_item_nums := butlast (list_item_nums s),
                   list_types := butlast (list_types s),
                   indent := indent s - list_indent default_config\<rparr>)) first_chunk_engine"
  by (simp add: handle_ol_def thn_def newline_def first_chunk_engine_def in_list_engine_def
      default_config_def)

lemma items_here_list [simp]:
  "items_here (Node ''ol'' txt tail attrib ch) = 0"
  "items_here (Node ''ul'' txt tail attrib ch) = 0"
  by (simp_all add: items_here.simps)

text \<open>
  What the handler of a container tag leaves behind, on every tree: indent and list types
  as on entry, the ordinal stack with its depth and all entries below the top, and the top
  advanced by the number of list items handled inside the container outside any nested
  list, if an ordered list is innermost on entry.
\<close>

lemma container_restores_up_to_items:
  assumes tg: "tg \<in> set [''blockquote'', ''ol'', ''ul'', ''pre'']"
    and h: "handle_node cfg ts (Node tg txt tail attrib ch) s = Inr s'"
  shows "indent s' = indent s \<and> list_types s' = list_types s \<and>
         length (list_item_nums s') = length (list_item_nums s) \<and>
         butlast (list_item_nums s') = butlast (list_item_nums s) \<and>
         list_item_nums s' =
           (if ordered_top s then bump (items_here (Node tg txt tail attrib ch)) (list_item_nums s)
            else list_item_nums s) \<and>
         (tg = ''ol'' \<or> tg = ''ul'' \<longrightarrow> list_item_nums s' = list_item_nums s)"
proof -
  note a = walk_counts[OF h]
  note f = frameD[OF advD(1)[OF a]]
  have n: "list_item_nums s' =
           (if ordered_top s then bump (items_here (Node tg txt tail attrib ch)) (list_item_nums s)
            else list_item_nums s)"
    using advD(2)[OF a] f(9) by simp
  then have "tg = ''ol'' \<or> tg = ''ul'' \<longrightarrow> list_item_nums s' = list_item_nums s"
    by auto
  with n f(1,2,7,8) show ?thesis
    by blast
qed

text \<open>
  In a tree of the parser a node other than a list item hands no list item to the list
  that is innermost on its entry.
\<close>

lemma items_here_zero:
  "items_in_lists n \<Longrightarrow> node_tag n \<noteq> ''li'' \<Longrightarrow> items_here n = 0"
proof (induction n)
  case (Node tg tx ta ab ch)
  show ?case
  proof (cases "tg \<in> set [''ol'', ''ul'', ''h1'', ''h2'', ''h3'', ''h4'', ''h5'', ''h6'', ''hr'']")
    case True
    then show ?thesis
      by (simp add: items_here.simps)
  next
    case False
    with Node.prems have k: "\<forall>c \<in> set ch. node_tag c \<noteq> ''li'' \<and> items_in_lists c"
      by auto
    have "\<forall>c \<in> set ch. items_here c = 0"
      using Node.IH k by blast
    then have "sum_list (map items_here ch) = 0"
      by (simp add: sum_list_eq_0_iff)
    with False Node.prems show ?thesis
      by (simp add: items_here.simps)
  qed
qed

text \<open>
  Claim C7. On the trees of the parser (list items only as children of lists): when the
  handler of a container tag (\<open>blockquote\<close>, \<open>ol\<close>, \<open>ul\<close>, \<open>pre\<close>) completes, at any nesting
  depth and from any engine, the indent is what it was on entry, and so are the stack of
  list types and the stack of list ordinals.
\<close>

theorem container_handlers_restore:
  assumes tg: "tg \<in> set [''blockquote'', ''ol'', ''ul'', ''pre'']"
    and h: "handle_node cfg ts (Node tg txt tail attrib ch) s = Inr s'"
    and p: "items_in_lists (Node tg txt tail attrib ch)"
  shows "indent s' = indent s \<and> list_types s' = list_types s \<and>
         list_item_nums s' = list_item_nums s"
proof -
  from tg have "node_tag (Node tg txt tail attrib ch) \<noteq> ''li''"
    by auto
  from items_here_zero[OF p this] have z: "items_here (Node tg txt tail attrib ch) = 0" .
  from container_restores_up_to_items[OF tg h] show ?thesis
    by (simp add: z bump_def split: if_splits)
qed

theorem container_handlers_restore_witness:
  "\<exists>s'. ''blockquote'' \<in> set [''blockquote'', ''ol'', ''ul'', ''pre''] \<and>
        handle_node default_config (fixed_pitch 6 12) quoted_lists in_list_engine = Inr s' \<and>
        items_in_lists quoted_lists \<and>
        indent in_list_engine = 28 \<and> list_types in_list_engine = [''ordered''] \<and>
        list_item_nums in_list_engine = [1] \<and>
        indent s' = 28 \<and> list_types s' = [''ordered''] \<and> list_item_nums s' = [1]"
proof -
  let ?r = "handle_node default_config (fixed_pitch 6 12) quoted_lists in_list_engine"
  have "map_sum id indent ?r = Inr 28"
    by code_simp
  then obtain s' where r: "?r = Inr s'"
    by (cases ?r) auto
  have m: "''blockquote'' \<in> set [''blockquote'', ''ol'', ''ul'', ''pre'']"
    by simp
  have p: "items_in_lists quoted_lists"
    by (simp add: quoted_lists_def)
  have e: "indent in_list_engine = 28" "list_types in_list_engine = [''ordered'']"
    "list_item_nums in_list_engine = [1]"
    by (simp_all add: in_list_engine_def first_chunk_engine_def)
  from container_handlers_restore[OF m r[unfolded quoted_lists_def] p[unfolded quoted_lists_def]]
  have "indent s' = 28" and "list_types s' = [''ordered'']" and "list_item_nums s' = [1]"
    by (simp_all add: e)
  with r m p e show ?thesis
    by blast
qed

text \<open>
  The hypothesis on the tree is needed. A block quote that holds a list item directly is
  not a tree of the parser; handled while an ordered list is innermost it leaves the
  ordinal stack \<open>[1]\<close> as \<open>[2]\<close>.
\<close>

lemma blockquote_with_item_advances_ordinal:
  "map_sum id list_item_nums
     (handle_node default_config (fixed_pitch 6 12)
        (Node ''blockquote'' None None [] [Node ''li'' (Some ''x'') None [] []])
        in_list_engine)
   = Inr [2] \<and> list_item_nums in_list_engine = [1] \<and>
   \<not> items_in_lists (Node ''blockquote'' None None [] [Node ''li'' (Some ''x'') None [] []])"
proof (intro conjI)
  show "map_sum id list_item_nums
     (handle_node default_config (fixed_pitch 6 12)
        (Node ''blockquote'' None None [] [Node ''li'' (Some ''x'') None [] []])
        in_list_engine)
   = Inr [2]"
    by code_simp
  show "list_item_nums in_list_engine = [1]"
    by (simp add: in_list_engine_def)
  show "\<not> items_in_lists (Node ''blockquote'' None None [] [Node ''li'' (Some ''x'') None [] []])"
    by simp
qed

subsection \<open>Ordinals of an ordered list\<close>

lemma handle_children_append:
  "handle_children cfg ts (xs @ ys) s = Inr t \<longleftrightarrow>
     (\<exists>m. handle_children cfg ts xs s = Inr m \<and> handle_children cfg ts ys m = Inr t)"
  by (induction xs arbitrary: s) (auto split: sum.splits)

lemma bump_snoc: "bump c (xs @ [a]) = xs @ [a + int c]"
  by (simp add: bump_def)

lemma ensure_image_surface:
  assumes "ensure_image h s = Inr (True, s1)"
  shows "\<exists>im. image s1 = Some im"
  using assms unfolding ensure_image_def
  by (auto simp: new_image_block_def split: sum.splits option.splits if_splits draw_attr.splits)

lemma draw_number_draws:
  assumes d: "draw_number cfg ts s = Inr s1"
  shows "\<exists>im x y. image s1 = Some im \<and> im_ops im \<noteq> [] \<and>
           last (im_ops im)
             = DrawText x y (fmt_d (last (list_item_nums s)) @ ''.'') DefaultFont (color cfg)"
proof -
  from d obtain num where n: "py_nth (list_item_nums s) (-1) = Inr num"
    by (auto simp: draw_number_def split: sum.splits)
  then have num: "num = last (list_item_nums s)"
    by (simp add: py_nth_last)
  from d n obtain s0 where
    e: "ensure_image (snd (ts DefaultFont (fmt_d num))) s = Inr (True, s0)" and
    s1: "s1 = (draw_on (DrawText (image_x s0 - fst (ts DefaultFont (fmt_d num)) - bullet_outdent cfg)
                 (image_y s0) (fmt_d num @ ''.'') DefaultFont (color cfg)) s0)
              \<lparr>list_item_nums := butlast (list_item_nums s0) @ [last (list_item_nums s0) + 1]\<rparr>"
    by (auto simp: draw_number_def Let_def draw_on_def split: sum.splits prod.splits if_splits)
  from ensure_image_surface[OF e] obtain im0 where "image s0 = Some im0" ..
  then show ?thesis
    by (simp add: s1 draw_on_def num)
qed

lemma sum_list_all_one:
  "(\<forall>c \<in> set cs. f c = (1::nat)) \<Longrightarrow> sum_list (map f cs) = length cs"
  by (induction cs) simp_all

text \<open>
  Claim C8. Let the handler of an ordered list complete, and let child \<open>k\<close> of the list
  (counted from 0) be a list item. The list begins with a fresh counter 1 on the ordinal
  stack, whatever the stack held before (nested or sibling lists included). The item is
  handled in the engine \<open>sk\<close> reached after the children before it; there the counter is 1
  plus the number of list items of this list handled so far, which is \<open>k + 1\<close> when each
  earlier child is one item. The handler of the item first draws that number followed by
  a full stop and then adds exactly 1 to the counter.
\<close>

theorem ordered_list_ordinals:
  assumes h: "handle_node cfg ts (Node ''ol'' txt tail attrib items) s = Inr s'"
    and k: "k < length items"
    and li: "node_tag (items ! k) = ''li''"
  shows "\<exists>p sk s1 im x y.
           newline (-1) (s\<lparr>indent := indent s + list_indent cfg\<rparr>) = Inr p \<and>
           handle_children cfg ts (take k items)
             (p\<lparr>list_types := list_types p @ [''ordered''],
                list_item_nums := list_item_nums p @ [1]\<rparr>) = Inr sk \<and>
           list_item_nums sk
             = list_item_nums p @ [1 + int (sum_list (map items_here (take k items)))] \<and>
           ((\<forall>c \<in> set (take k items). items_here c = 1) \<longrightarrow>
              list_item_nums sk = list_item_nums p @ [1 + int k]) \<and>
           handle_node cfg ts (items ! k) sk
             = thn (thn (draw_number cfg ts)
                     (thn (render_text_stmt ts (node_text (items ! k)) (color cfg) True DefaultFont)
                       (handle_children cfg ts (node_children (items ! k)))))
                 (newline (list_item_margin_bottom cfg)) sk \<and>
           draw_number cfg ts sk = Inr s1 \<and>
           image s1 = Some im \<and> im_ops im \<noteq> [] \<and>
           last (im_ops im)
             = DrawText x y (fmt_d (1 + int (sum_list (map items_here (take k items)))) @ ''.'')
                 DefaultFont (color cfg) \<and>
           list_item_nums s1
             = list_item_nums p @ [2 + int (sum_list (map items_here (take k items)))]"
proof -
  let ?c = "sum_list (map items_here (take k items))"
  from h have "handle_ol cfg (handle_children cfg ts items) s = Inr s'"
    by (simp add: handle_node.simps handlers_def)
  then obtain p s2 where
    p: "newline (-1) (s\<lparr>indent := indent s + list_indent cfg\<rparr>) = Inr p" and
    all: "handle_children cfg ts items
            (p\<lparr>list_types := list_types p @ [''ordered''],
               list_item_nums := list_item_nums p @ [1]\<rparr>) = Inr s2"
    unfolding handle_ol_def by (elim thnE)
  let ?q = "p\<lparr>list_types := list_types p @ [''ordered''],
               list_item_nums := list_item_nums p @ [1]\<rparr>"
  from k have "items = take k items @ (items ! k # drop (Suc k) items)"
    by (simp add: id_take_nth_drop[symmetric])
  with all have "handle_children cfg ts (take k items @ (items ! k # drop (Suc k) items)) ?q
                   = Inr s2"
    by simp
  then obtain sk where
    sk: "handle_children cfg ts (take k items) ?q = Inr sk" and
    rest: "handle_children cfg ts (items ! k # drop (Suc k) items) sk = Inr s2"
    unfolding handle_children_append by blast
  from rest obtain sk' where item: "handle_node cfg ts (items ! k) sk = Inr sk'"
    by (auto split: sum.splits)
  have oq: "ordered_top ?q"
    by (simp add: ordered_top_def)
  note a = walk_counts_children[OF sk]
  from advD(2)[OF a oq] have nums: "list_item_nums sk = list_item_nums p @ [1 + int ?c]"
    by (simp add: bump_snoc)
  from frame_ordered_top[OF advD(1)[OF a]] oq have osk: "ordered_top sk"
    by simp
  then have top: "py_nth (list_types sk) (-1) = Inr ''ordered''"
    by (simp add: py_nth_last ordered_top_def)
  obtain tx ta ab ch where nk: "items ! k = Node ''li'' tx ta ab ch"
    using li by (cases "items ! k") auto
  have unf: "handle_node cfg ts (items ! k) sk
             = thn (thn (draw_number cfg ts)
                     (thn (render_text_stmt ts (node_text (items ! k)) (color cfg) True DefaultFont)
                       (handle_children cfg ts (node_children (items ! k)))))
                 (newline (list_item_margin_bottom cfg)) sk"
    by (simp add: nk handle_node.simps handlers_def handle_li_def top)
  with item obtain s1 where dn: "draw_number cfg ts sk = Inr s1"
    by (auto elim!: thnE)
  from draw_number_draws[OF dn] obtain im x y where
    im: "image s1 = Some im" "im_ops im \<noteq> []"
        "last (im_ops im) = DrawText x y (fmt_d (1 + int ?c) @ ''.'') DefaultFont (color cfg)"
    by (auto simp: nums)
  from draw_number_effect(2)[OF dn]
  have after: "list_item_nums s1 = list_item_nums p @ [2 + int ?c]"
    by (simp add: nums)
  have plain: "(\<forall>c \<in> set (take k items). items_here c = 1) \<longrightarrow>
              list_item_nums sk = list_item_nums p @ [1 + int k]"
  proof
    assume "\<forall>c \<in> set (take k items). items_here c = 1"
    from sum_list_all_one[OF this] k have "sum_list (map items_here (take k items)) = k"
      by simp
    then show "list_item_nums sk = list_item_nums p @ [1 + int k]"
      by (simp add: nums)
  qed
  from p sk nums plain unf dn im after show ?thesis
    by blast
qed


theorem ordered_list_ordinals_witness:
  "\<exists>s'. handle_node default_config (fixed_pitch 6 12) (Node ''ol'' None None [] three_items)
          first_chunk_engine = Inr s' \<and>
        (2::nat) < length three_items \<and> node_tag (three_items ! 2) = ''li'' \<and>
        (\<exists>sk s1 im x y.
           list_item_nums sk = [3] \<and>
           draw_number default_config (fixed_pitch 6 12) sk = Inr s1 \<and>
           image s1 = Some im \<and>
           last (im_ops im) = DrawText x y ''3.'' DefaultFont (255, 255, 255, 255) \<and>
           list_item_nums s1 = [4])"
proof -
  let ?r = "handle_node default_config (fixed_pitch 6 12) (Node ''ol'' None None [] three_items)
              first_chunk_engine"
  have "map_sum id list_item_nums ?r = Inr []"
    by code_simp
  then obtain s' where r: "?r = Inr s'"
    by (cases ?r) auto
  have k: "(2::nat) < length three_items" and li: "node_tag (three_items ! 2) = ''li''"
    by (simp_all add: three_items_def)
  have c: "sum_list (map items_here (take 2 three_items)) = 2"
    by (simp add: three_items_def items_here.simps)
  have d: "fmt_d 3 = ''3''"
    by code_simp
  from ordered_list_ordinals[OF r k li] obtain p sk s1 im x y where
    p: "newline (-1) (first_chunk_engine
                       \<lparr>indent := indent first_chunk_engine + list_indent default_config\<rparr>) = Inr p" and
    sk: "list_item_nums sk = list_item_nums p @ [1 + int (sum_list (map items_here (take 2 three_items)))]" and
    dn: "draw_number default_config (fixed_pitch 6 12) sk = Inr s1" and
    im: "image s1 = Some im"
        "last (im_ops im)
           = DrawText x y (fmt_d (1 + int (sum_list (map items_here (take 2 three_items)))) @ ''.'')
               DefaultFont (color default_config)" and
    s1: "list_item_nums s1 = list_item_nums p @ [2 + int (sum_list (map items_here (take 2 three_items)))]"
    by blast
  from sameD(3)[OF newline_same[OF p]] have "list_item_nums p = []"
    by (simp add: first_chunk_engine_def)
  with sk s1 im(2) have "list_item_nums sk = [3]" "list_item_nums s1 = [4]"
    "last (im_ops im) = DrawText x y ''3.'' DefaultFont (255, 255, 255, 255)"
    by (simp_all add: c d default_config_def)
  with r k li dn im(1) show ?thesis
    by blast
qed

subsection \<open>Word wrap\<close>

lemma scan_fit_bounds:
  "end_index \<le> length parts \<Longrightarrow>
     fst (scan_fit tsf parts start_index ix ex end_index wh) \<le> length parts"
proof (induction tsf parts start_index ix ex end_index wh rule: scan_fit.induct)
  case (1 tsf parts start_index ix ex end_index wh)
  show ?case
  proof (cases "end_index < length parts")
    case False
    with "1.prems" show ?thesis
      by (simp add: scan_fit.simps)
  next
    case True
    let ?wh = "tsf (join '' '' (py_slice parts start_index (end_index + 1)))"
    show ?thesis
    proof (cases "ix + fst ?wh > ex")
      case over: True
      with True show ?thesis
        by (subst scan_fit.simps) (simp add: Let_def)
    next
      case False
      with True "1.IH"[of ?wh] show ?thesis
        by (subst scan_fit.simps) (simp add: Let_def)
    qed
  qed
qed

lemma scan_fit_last_fits:
  assumes "scan_fit tsf parts start_index ix ex end_index wh = (e, w, h)"
    and "end_index < e"
  shows "ix + fst (tsf (join '' '' (py_slice parts start_index e))) \<le> ex"
  using assms
proof (induction tsf parts start_index ix ex end_index wh rule: scan_fit.induct)
  case (1 tsf parts start_index ix ex end_index wh)
  let ?wh = "tsf (join '' '' (py_slice parts start_index (end_index + 1)))"
  from "1.prems" have lt: "end_index < length parts"
    by (subst (asm) scan_fit.simps) (auto split: if_splits)
  from "1.prems" lt have fits: "\<not> ix + fst ?wh > ex"
    by (subst (asm) scan_fit.simps) (auto simp: Let_def split: if_splits)
  with "1.prems"(1) lt
  have rec: "scan_fit tsf parts start_index ix ex (end_index + 1) ?wh = (e, w, h)"
    by (subst (asm) scan_fit.simps) (simp add: Let_def)
  show ?case
  proof (cases "end_index + 1 < e")
    case True
    from "1.IH"[OF lt refl fits rec True] show ?thesis .
  next
    case False
    with "1.prems"(2) have "e = end_index + 1"
      by simp
    with fits show ?thesis
      by simp
  qed
qed

lemma scan_fit_first_fails:
  assumes "scan_fit tsf parts start_index ix ex end_index wh = (end_index, w, h)"
    and "end_index < length parts"
  shows "ix + fst (tsf (join '' '' (py_slice parts start_index (end_index + 1)))) > ex"
proof (rule ccontr)
  let ?wh = "tsf (join '' '' (py_slice parts start_index (end_index + 1)))"
  assume "\<not> ix + fst ?wh > ex"
  with assms have "scan_fit tsf parts start_index ix ex (end_index + 1) ?wh = (end_index, w, h)"
    by (subst (asm) scan_fit.simps) (simp add: Let_def)
  with scan_fit_ge[of "end_index + 1" tsf parts start_index ix ex ?wh] show False
    by simp
qed

lemma py_slice_one: "i < length xs \<Longrightarrow> py_slice xs i (Suc i) = [xs ! i]"
  by (simp add: py_slice_def Cons_nth_drop_Suc[symmetric])

lemma fit_end_cases:
  assumes lt: "start_index < length parts"
  shows "start_index < fst (fit_end tsf parts start_index ix ex) \<and>
         fst (fit_end tsf parts start_index ix ex) \<le> length parts \<and>
         (ix + fst (tsf (join '' '' (py_slice parts start_index
                                      (fst (fit_end tsf parts start_index ix ex))))) \<le> ex
          \<or> (fst (fit_end tsf parts start_index ix ex) = start_index + 1 \<and>
              join '' '' (py_slice parts start_index (start_index + 1)) = parts ! start_index \<and>
              ix + fst (tsf (parts ! start_index)) > ex))"
proof -
  obtain e w h where sc: "scan_fit tsf parts start_index ix ex start_index (0, 0) = (e, w, h)"
    by (cases "scan_fit tsf parts start_index ix ex start_index (0, 0)") auto
  from scan_fit_ge[of start_index tsf parts start_index ix ex "(0, 0)"] sc
  have ge: "start_index \<le> e" by simp
  from scan_fit_bounds[of start_index parts tsf start_index ix ex "(0, 0)"] sc lt
  have le: "e \<le> length parts" by simp
  show ?thesis
  proof (cases "start_index = e")
    case True
    with sc lt have "ix + fst (tsf (join '' '' (py_slice parts start_index (start_index + 1)))) > ex"
      by (intro scan_fit_first_fails[where wh = "(0, 0)" and w = w and h = h]) simp_all
    with True sc lt show ?thesis
      by (simp add: fit_end_def py_slice_one)
  next
    case False
    with ge have "start_index < e" by simp
    from scan_fit_last_fits[OF sc this] False sc le \<open>start_index < e\<close> show ?thesis
      by (simp add: fit_end_def)
  qed
qed


lemma ensure_image_cursor:
  assumes "ensure_image h s = Inr (True, s1)"
  shows "image_x s1 = image_x s" and "self_y s1 = self_y s" and "\<exists>im. image s1 = Some im"
proof -
  from assms obtain s0 where a: "apply_width_spec h s = Inr s0"
    by (auto simp: ensure_image_def split: sum.splits)
  then have s0: "image_x s0 = image_x s" "self_y s0 = self_y s"
    by (auto simp: apply_width_spec_def Let_def split: if_splits sum.splits prod.splits)
  from assms a have "image_x s1 = image_x s0 \<and> self_y s1 = self_y s0 \<and> (\<exists>im. image s1 = Some im)"
    unfolding ensure_image_def
    by (auto simp: new_image_block_def save_image_block_def
        split: sum.splits option.splits if_splits draw_attr.splits)
  with s0 show "image_x s1 = image_x s" and "self_y s1 = self_y s" and "\<exists>im. image s1 = Some im"
    by simp_all
qed

text \<open>
  One pass through the body of the wrap loop, from an index inside \<open>parts\<close>. With \<open>end_x\<close>
  the right edge that the pass compares against, which is the edge in force before the
  draw request of the fragment, and \<open>image_x\<close> the cursor at which the fragment is drawn:
  the fragment is \<open>parts[start_index:end_index]\<close> joined by spaces, it is drawn whole at the
  cursor, its bounding box records the cursor and its measured size, and either its
  measured width is at most \<open>end_x - image_x\<close>, or it is the single word
  \<open>parts[start_index]\<close>, drawn in full, whose width exceeds \<open>end_x - image_x\<close>.
\<close>

lemma place_fragment_fits:
  assumes pf: "place_fragment ts fnt col parts start_index s = Inr (end_index, bx, s')"
    and lt: "start_index < length parts"
    and ex: "end_x s = Some ex"
  shows "start_index < end_index \<and> end_index \<le> length parts \<and>
         bx = (image_x s, self_y s,
               fst (ts fnt (join '' '' (py_slice parts start_index end_index))),
               snd (ts fnt (join '' '' (py_slice parts start_index end_index)))) \<and>
         (\<exists>im. image s' = Some im \<and> im_ops im \<noteq> [] \<and>
               last (im_ops im)
                 = DrawText (image_x s) (image_y s')
                     (join '' '' (py_slice parts start_index end_index)) fnt col) \<and>
         (fst (ts fnt (join '' '' (py_slice parts start_index end_index))) \<le> ex - image_x s
          \<or> (end_index = start_index + 1 \<and>
              join '' '' (py_slice parts start_index end_index) = parts ! start_index \<and>
              fst (ts fnt (parts ! start_index)) > ex - image_x s))"
proof -
  let ?fe = "fit_end (ts fnt) parts start_index (image_x s) ex"
  let ?frag = "join '' '' (py_slice parts start_index (fst ?fe))"
  from pf ex obtain s1 where
    e: "ensure_image (snd ?fe) s = Inr (True, s1)" and
    ei: "end_index = fst ?fe" and
    bx: "bx = (image_x s1, self_y s1, fst (ts fnt ?frag), snd (ts fnt ?frag))" and
    s': "s' = draw_on (DrawText (image_x s1) (image_y s1) ?frag fnt col)
                (s1\<lparr>line_height := max (snd ?fe) (line_height s1)\<rparr>)"
    by (auto simp: place_fragment_def Let_def draw_on_def split: sum.splits prod.splits if_splits)
  note c = ensure_image_cursor[OF e]
  from c(3) obtain im1 where im1: "image s1 = Some im1" ..
  have op: "\<exists>im. image s' = Some im \<and> im_ops im \<noteq> [] \<and>
               last (im_ops im) = DrawText (image_x s) (image_y s') ?frag fnt col"
    by (simp add: s' draw_on_def im1 c(1))
  from fit_end_cases[OF lt, of "ts fnt" "image_x s" ex]
  have "start_index < fst ?fe" and "fst ?fe \<le> length parts" and
    "fst (ts fnt ?frag) \<le> ex - image_x s
      \<or> (fst ?fe = start_index + 1 \<and> ?frag = parts ! start_index \<and>
          fst (ts fnt (parts ! start_index)) > ex - image_x s)"
    by auto
  with op bx show ?thesis
    unfolding ei by (simp add: c(1,2))
qed

lemma place_fragment_fits_example:
  "\<exists>bx s'. place_fragment (fixed_pitch 6 12) DefaultFont (255, 255, 255, 255) fox_parts 0
             first_chunk_engine = Inr (6, bx, s') \<and>
           (0::nat) < length fox_parts \<and> end_x first_chunk_engine = Some 200 \<and>
           bx = (0, 0, 180, 12) \<and> (180::int) \<le> 200 - 0"
proof -
  let ?r = "place_fragment (fixed_pitch 6 12) DefaultFont (255, 255, 255, 255) fox_parts 0
              first_chunk_engine"
  have "map_sum id fst ?r = Inr 6"
    by code_simp
  then obtain bx s' where r: "?r = Inr (6, bx, s')"
    by (cases ?r) auto
  have lt: "(0::nat) < length fox_parts" and ex: "end_x first_chunk_engine = Some 200"
    by (simp_all add: fox_parts_def first_chunk_engine_def)
  have f: "join '' '' (py_slice fox_parts 0 6) = ''the quick brown fox jumps over''"
    by code_simp
  from place_fragment_fits[OF r lt ex] have "bx = (0, 0, 180, 12)"
    by (simp add: f fixed_pitch_def first_chunk_engine_def)
  with r lt ex show ?thesis
    by simp
qed

subsection \<open>Breakpoints of the width-spec\<close>

lemma apply_width_spec_two_columns:
  assumes ws: "store s (width_spec s) = [(0, a, b), (500, c, d)]"
    and ap: "apply_width_spec h s = Inr s0"
  shows "width_spec_index s = 0 \<Longrightarrow> 500 \<le> self_y s + h \<Longrightarrow>
           width_spec_index s0 = 1 \<and> start_x s0 = Some c \<and> end_x s0 = Some (c + d)"
    and "width_spec_index s = 0 \<Longrightarrow> \<not> 500 \<le> self_y s + h \<Longrightarrow> s0 = s"
    and "width_spec_index s = 1 \<Longrightarrow> s0 = s"
  using ap by (auto simp: apply_width_spec_def ws py_nth_def Let_def split: if_splits)

lemma ensure_image_column:
  assumes "ensure_image h s = Inr (ok, s1)"
  shows "\<exists>s0. apply_width_spec h s = Inr s0 \<and> width_spec_index s1 = width_spec_index s0 \<and>
              start_x s1 = start_x s0 \<and> end_x s1 = end_x s0"
  using assms unfolding ensure_image_def
  by (auto simp: new_image_block_def save_image_block_def
      split: sum.splits option.splits if_splits draw_attr.splits)

lemma newline_column:
  assumes "newline h s = Inr s1"
  shows "width_spec_index s1 = width_spec_index s \<and> start_x s1 = start_x s \<and> end_x s1 = end_x s"
  using assms by (auto simp: newline_def Let_def split: option.splits)

text \<open>
  Where the bounds change, for a width-spec with breakpoints at 0 and 500. The active index
  never decreases over the walk. The bounds change only in a draw request
  (\<open>ensure_image h\<close>), never in \<open>newline\<close>: while the first entry is active, a request made
  at logical \<open>y\<close> keeps the first column's bounds if \<open>y + h < 500\<close> and installs the second
  column's if \<open>y + h \<ge> 500\<close>; once the second entry is active its bounds stay.
\<close>

lemma draw_request_switches_column:
  assumes ws: "store s (width_spec s) = [(0, a, b), (500, c, d)]"
  shows "(handle_node cfg ts n s = Inr s' \<longrightarrow> width_spec_index s \<le> width_spec_index s') \<and>
         (width_spec_index s = 0 \<and> ensure_image h s = Inr (ok, s1) \<longrightarrow>
            (if 500 \<le> self_y s + h
             then width_spec_index s1 = 1 \<and> start_x s1 = Some c \<and> end_x s1 = Some (c + d)
             else width_spec_index s1 = 0 \<and> start_x s1 = start_x s \<and> end_x s1 = end_x s)) \<and>
         (width_spec_index s = 1 \<and> ensure_image h s = Inr (ok, s1) \<longrightarrow>
            width_spec_index s1 = 1 \<and> start_x s1 = start_x s \<and> end_x s1 = end_x s) \<and>
         (newline h' s = Inr s2 \<longrightarrow>
            width_spec_index s2 = width_spec_index s \<and> start_x s2 = start_x s \<and>
            end_x s2 = end_x s)"
proof -
  have A: "width_spec_index s \<le> width_spec_index s'" if "handle_node cfg ts n s = Inr s'"
    using frameD(6)[OF walk_frame[OF that]] .
  have B: "if 500 \<le> self_y s + h
        then width_spec_index s1 = 1 \<and> start_x s1 = Some c \<and> end_x s1 = Some (c + d)
        else width_spec_index s1 = 0 \<and> start_x s1 = start_x s \<and> end_x s1 = end_x s"
    if a: "width_spec_index s = 0 \<and> ensure_image h s = Inr (ok, s1)"
  proof -
    from a obtain s0 where
      s0: "apply_width_spec h s = Inr s0" "width_spec_index s1 = width_spec_index s0"
          "start_x s1 = start_x s0" "end_x s1 = end_x s0"
      using ensure_image_column by blast
    show ?thesis
    proof (cases "500 \<le> self_y s + h")
      case True
      with apply_width_spec_two_columns(1)[OF ws s0(1)] a s0(2-4) show ?thesis
        by simp
    next
      case False
      with apply_width_spec_two_columns(2)[OF ws s0(1)] a s0(2-4) show ?thesis
        by simp
    qed
  qed
  have C: "width_spec_index s1 = 1 \<and> start_x s1 = start_x s \<and> end_x s1 = end_x s"
    if a: "width_spec_index s = 1 \<and> ensure_image h s = Inr (ok, s1)"
  proof -
    from a obtain s0 where
      s0: "apply_width_spec h s = Inr s0" "width_spec_index s1 = width_spec_index s0"
          "start_x s1 = start_x s0" "end_x s1 = end_x s0"
      using ensure_image_column by blast
    with apply_width_spec_two_columns(3)[OF ws s0(1)] a show ?thesis
      by simp
  qed
  have D: "width_spec_index s2 = width_spec_index s \<and> start_x s2 = start_x s \<and>
            end_x s2 = end_x s" if "newline h' s = Inr s2"
    using newline_column[OF that] .
  from A B C D show ?thesis
    by blast
qed

lemma draw_request_switches_column_example:
  "store two_column_engine (width_spec two_column_engine) = [(0, 0, 200), (500, 100, 50)] \<and>
   width_spec_index two_column_engine = 0 \<and>
   (\<exists>s1. ensure_image 600 two_column_engine = Inr (True, s1) \<and>
         width_spec_index s1 = 1 \<and> start_x s1 = Some 100 \<and> end_x s1 = Some 150) \<and>
   (\<exists>s1. ensure_image 12 two_column_engine = Inr (True, s1) \<and>
         width_spec_index s1 = 0 \<and> start_x s1 = Some 0 \<and> end_x s1 = Some 200)"
proof -
  have ws: "store two_column_engine (width_spec two_column_engine)
              = [(0, 0, 200), (500, 100, 50)]"
    and ix: "width_spec_index two_column_engine = 0"
    and y: "self_y two_column_engine = 0"
    and sx: "start_x two_column_engine = Some 0" "end_x two_column_engine = Some 200"
    by (simp_all add: two_column_engine_def first_chunk_engine_def const_store_def)
  have "map_sum id fst (ensure_image 600 two_column_engine) = Inr True"
    by code_simp
  then obtain s1 where e1: "ensure_image 600 two_column_engine = Inr (True, s1)"
    by (cases "ensure_image 600 two_column_engine") auto
  have "map_sum id fst (ensure_image 12 two_column_engine) = Inr True"
    by code_simp
  then obtain s2 where e2: "ensure_image 12 two_column_engine = Inr (True, s2)"
    by (cases "ensure_image 12 two_column_engine") auto
  from draw_request_switches_column[OF ws, of _ _ _ _ 600 True s1] ix e1 y
  have a: "width_spec_index s1 = 1 \<and> start_x s1 = Some 100 \<and> end_x s1 = Some 150"
    by simp
  from draw_request_switches_column[OF ws, of _ _ _ _ 12 True s2] ix e2 y sx
  have b: "width_spec_index s2 = 0 \<and> start_x s2 = Some 0 \<and> end_x s2 = Some 200"
    by simp
  from ws ix e1 e2 a b show ?thesis
    by blast
qed

text \<open>
  The engine on which the walk starts for the width-spec \<open>[(0, 0, 200), (500, 100, 50)]\<close>.
\<close>

lemma two_column_engine_reached:
  "(case init 0 (const_store [(0, 0, 200), (500, 100, 50)]) of
      Inl e \<Rightarrow> Inl e
    | Inr s0 \<Rightarrow> new_image_block s0)
   = Inr two_column_engine"
  by (simp add: init_def apply_width_spec_def py_nth_def new_image_block_def
      save_image_block_def two_column_engine_def first_chunk_engine_def const_store_def
      IMAGE_BLOCK_HEIGHT_def Let_def fun_eq_iff less_eq_prod_def)

text \<open>
  Claim C4 says that with breakpoints at 0 and 500 every run drawn at logical \<open>y \<ge> 500\<close>
  uses the second column's bounds, as the description of \<open>width_spec\<close> at \<open>md2png\<close>
  promises (each tuple is used for all lines from its y-offset to the next). The code
  does not do that. After 32 horizontal rules the cursor is at \<open>y = 512\<close> and no draw
  request has been made, so the first entry is still active: the link text that follows is
  fitted against the first column's right edge 200 and drawn at the first column's left
  edge, at \<open>(0, 512)\<close> with the box \<open>(0, 512, 96, 12)\<close>. Only the draw request of that very
  run installs the second column, which is \<open>[100, 150]\<close>.
\<close>

theorem run_below_breakpoint_in_first_column:
  "map_sum id (links \<circ> snd)
     (md2png default_config (fixed_pitch 6 12) two_column_doc 0
        (const_store [(0, 0, 200), (500, 100, 50)]))
   = Inr [(''u'', Some [(0, 512, 96, 12)])] \<and>
   map_sum id (drawn_texts \<circ> snd)
     (md2png default_config (fixed_pitch 6 12) two_column_doc 0
        (const_store [(0, 0, 200), (500, 100, 50)]))
   = Inr [(0, 512, ''hello wide world''), (96, 512, '' '')] \<and>
   map_sum id ((\<lambda>s. (width_spec_index s, start_x s, end_x s)) \<circ> snd)
     (md2png default_config (fixed_pitch 6 12) two_column_doc 0
        (const_store [(0, 0, 200), (500, 100, 50)]))
   = Inr (1, Some 100, Some 150) \<and>
   (500::int) \<le> 512 \<and> (0::int) < 100"
proof (intro conjI)
  show "map_sum id (links \<circ> snd)
     (md2png default_config (fixed_pitch 6 12) two_column_doc 0
        (const_store [(0, 0, 200), (500, 100, 50)]))
   = Inr [(''u'', Some [(0, 512, 96, 12)])]"
    by code_simp
  show "map_sum id (drawn_texts \<circ> snd)
     (md2png default_config (fixed_pitch 6 12) two_column_doc 0
        (const_store [(0, 0, 200), (500, 100, 50)]))
   = Inr [(0, 512, ''hello wide world''), (96, 512, '' '')]"
    by code_simp
  show "map_sum id ((\<lambda>s. (width_spec_index s, start_x s, end_x s)) \<circ> snd)
     (md2png default_config (fixed_pitch 6 12) two_column_doc 0
        (const_store [(0, 0, 200), (500, 100, 50)]))
   = Inr (1, Some 100, Some 150)"
    by code_simp
qed simp_all

subsection \<open>Word wrap across a breakpoint\<close>

text \<open>
  A drawing call goes to the open chunk; opening a new chunk, a draw request and a
  newline make none. A draw request that leaves the width-spec index alone leaves the
  right edge alone.
\<close>

lemma apply_width_spec_cases:
  "apply_width_spec h s = Inr s0 \<Longrightarrow> s0 = s \<or> width_spec_index s0 = width_spec_index s + 1"
  by (auto simp: apply_width_spec_def Let_def split: if_splits sum.splits prod.splits)

lemma apply_width_spec_ops:
  "apply_width_spec h s = Inr s0 \<Longrightarrow> all_ops s0 = all_ops s"
  by (auto simp: apply_width_spec_def all_ops_def Let_def split: if_splits sum.splits prod.splits)

lemma new_image_block_ops:
  "new_image_block s = Inr s2 \<Longrightarrow> all_ops s2 = all_ops s"
  by (auto simp: new_image_block_def save_image_block_def all_ops_def
      split: sum.splits option.splits if_splits)

lemma ensure_image_ops:
  assumes "ensure_image h s = Inr (ok, s1)"
  shows "all_ops s1 = all_ops s"
proof -
  from assms obtain s0 where a: "apply_width_spec h s = Inr s0"
    by (auto simp: ensure_image_def split: sum.splits)
  from assms a have "all_ops s1 = all_ops s0"
    unfolding ensure_image_def
    by (auto simp: all_ops_def split: sum.splits option.splits if_splits draw_attr.splits
        dest!: new_image_block_ops)
  with apply_width_spec_ops[OF a] show ?thesis
    by simp
qed

lemma newline_ops: "newline h s = Inr s' \<Longrightarrow> all_ops s' = all_ops s"
  by (auto simp: newline_def all_ops_def Let_def split: option.splits)

lemma ensure_image_keeps_column:
  assumes "ensure_image h s = Inr (ok, s1)" and "width_spec_index s1 = width_spec_index s"
  shows "end_x s1 = end_x s"
proof -
  from ensure_image_column[OF assms(1)] obtain s0 where
    s0: "apply_width_spec h s = Inr s0" "width_spec_index s1 = width_spec_index s0"
      "end_x s1 = end_x s0"
    by blast
  from apply_width_spec_cases[OF s0(1)] s0(2) assms(2) have "s0 = s"
    by auto
  with s0(3) show ?thesis
    by simp
qed


lemma place_fragment_step:
  assumes pf: "place_fragment ts fnt col parts i s = Inr (e, bx, s')"
    and lt: "i < length parts"
    and ex: "end_x s = Some ex"
  shows "all_ops s' = all_ops s @ [DrawText (fst bx) (image_y s')
                                     (join '' '' (py_slice parts i e)) fnt col]"
    and "fst (snd (snd bx)) = fst (ts fnt (join '' '' (py_slice parts i e)))"
    and "i < e" and "e \<le> length parts"
    and "fst bx + fst (ts fnt (join '' '' (py_slice parts i e))) \<le> ex
         \<or> (e = i + 1 \<and> join '' '' (py_slice parts i e) = parts ! i)"
    and "width_spec_index s' = width_spec_index s \<Longrightarrow> end_x s' = Some ex"
proof -
  let ?fe = "fit_end (ts fnt) parts i (image_x s) ex"
  let ?frag = "join '' '' (py_slice parts i (fst ?fe))"
  from pf ex obtain s1 where
    e: "ensure_image (snd ?fe) s = Inr (True, s1)" and
    ei: "e = fst ?fe" and
    s': "s' = draw_on (DrawText (image_x s1) (image_y s1) ?frag fnt col)
                (s1\<lparr>line_height := max (snd ?fe) (line_height s1)\<rparr>)"
    by (auto simp: place_fragment_def Let_def draw_on_def split: sum.splits prod.splits if_splits)
  note f = place_fragment_fits[OF pf lt ex]
  note c = ensure_image_cursor[OF e]
  from c(3) obtain im1 where im1: "image s1 = Some im1" ..
  from f have bx: "fst bx = image_x s"
    by simp
  have "all_ops s' = all_ops s1 @ [DrawText (image_x s1) (image_y s1) ?frag fnt col]"
    by (simp add: s' draw_on_def all_ops_def im1)
  moreover have "image_y s' = image_y s1"
    by (simp add: s' draw_on_def)
  ultimately show "all_ops s' = all_ops s @ [DrawText (fst bx) (image_y s')
                                     (join '' '' (py_slice parts i e)) fnt col]"
    using ensure_image_ops[OF e] c(1) bx ei by simp
  from f show "fst (snd (snd bx)) = fst (ts fnt (join '' '' (py_slice parts i e)))"
    by simp
  from f show "i < e" and "e \<le> length parts"
    by simp_all
  from f bx show "fst bx + fst (ts fnt (join '' '' (py_slice parts i e))) \<le> ex
         \<or> (e = i + 1 \<and> join '' '' (py_slice parts i e) = parts ! i)"
    by auto
  show "end_x s' = Some ex" if "width_spec_index s' = width_spec_index s"
  proof -
    have "width_spec_index s' = width_spec_index s1" "end_x s' = end_x s1"
      by (simp_all add: s' draw_on_def)
    with that ensure_image_keeps_column[OF e] ex show ?thesis
      by simp
  qed
qed


lemma place_fragment_fitted:
  assumes pf: "place_fragment ts fnt col parts i s = Inr (e, bx, s')"
    and lt: "i < length parts"
    and ex: "end_x s = Some ex"
  shows "\<exists>op. all_ops s' = all_ops s @ [op] \<and> fitted ts fnt col parts ex op bx"
proof -
  note st = place_fragment_step[OF pf lt ex]
  let ?op = "DrawText (fst bx) (image_y s') (join '' '' (py_slice parts i e)) fnt col"
  from st(2-5) have "fitted ts fnt col parts ex ?op bx"
    unfolding fitted_def by (intro exI[of _ i] exI[of _ e] exI[of _ "image_y s'"]) simp
  with st(1) show ?thesis
    by blast
qed

text \<open>
  A whole text run in normal mode, when the active entry of the width-spec is the same
  after the run as before it: \<open>render_text\<close> makes one drawing call per returned box, and
  each is a fragment of the text that ends at or before the right edge or is a single
  word.
\<close>

lemma wrap_lines_fitted:
  assumes "wrap_lines ts fnt col eb parts i blocks s = Inr (b, s')"
    and "width_spec_index s' = width_spec_index s"
    and "end_x s = Some ex"
  shows "\<exists>ops bxs. all_ops s' = all_ops s @ ops \<and> b = blocks @ bxs \<and>
                   list_all2 (fitted ts fnt col parts ex) ops bxs"
  using assms
proof (induction ts fnt col eb parts i blocks s rule: wrap_lines.induct)
  case (1 ts fnt col end_block parts start_index blocks s)
  show ?case
  proof (cases "start_index < length parts")
    case False
    with "1.prems"(1) have "b = blocks" "s' = s"
      by (simp_all add: wrap_lines.simps)
    then show ?thesis
      by simp
  next
    case True
    with "1.prems"(1) obtain e bx s3 where
      pf: "place_fragment ts fnt col parts start_index s = Inr (e, bx, s3)"
      by (subst (asm) wrap_lines.simps) (auto split: sum.splits)
    note m3 = sameD(8)[OF place_fragment_same[OF pf]]
    from place_fragment_fitted[OF pf True "1.prems"(3)] obtain op where
      op: "all_ops s3 = all_ops s @ [op]" "fitted ts fnt col parts ex op bx"
      by blast
    show ?thesis
    proof (cases "e < length parts")
      case lt: True
      with "1.prems"(1) True pf obtain s4 where
        nl: "newline (-1) s3 = Inr s4" and
        rec: "wrap_lines ts fnt col end_block parts e (blocks @ [bx]) s4 = Inr (b, s')"
        by (subst (asm) wrap_lines.simps) (auto split: sum.splits)
      note c4 = newline_column[OF nl]
      note m' = sameD(8)[OF wrap_lines_same[OF rec]]
      from m3 m' c4 "1.prems"(2) have i3: "width_spec_index s3 = width_spec_index s"
        and i': "width_spec_index s' = width_spec_index s4"
        by simp_all
      from place_fragment_step(6)[OF pf True "1.prems"(3) i3] c4
      have e4: "end_x s4 = Some ex"
        by simp
      from "1.IH"[OF True pf refl refl lt nl rec i' e4] obtain ops' bxs' where
        r: "all_ops s' = all_ops s4 @ ops'" "b = (blocks @ [bx]) @ bxs'"
           "list_all2 (fitted ts fnt col parts ex) ops' bxs'"
        by blast
      from r(1) op(1) newline_ops[OF nl] have "all_ops s' = all_ops s @ (op # ops')"
        by simp
      moreover from r(2) have "b = blocks @ (bx # bxs')"
        by simp
      moreover from r(3) op(2) have "list_all2 (fitted ts fnt col parts ex) (op # ops') (bx # bxs')"
        by simp
      ultimately show ?thesis
        by blast
    next
      case False
      with "1.prems"(1) True pf have "b = blocks @ [bx] \<and> all_ops s' = all_ops s3"
        by (subst (asm) wrap_lines.simps)
           (auto split: sum.splits if_splits dest!: newline_ops simp: all_ops_def)
      with op have "all_ops s' = all_ops s @ [op]" "b = blocks @ [bx]"
        "list_all2 (fitted ts fnt col parts ex) [op] [bx]"
        by simp_all
      then show ?thesis
        by blast
    qed
  qed
qed

lemma render_text_fitted:
  assumes r: "render_text ts (Some t) col eb fnt s = Inr (blocks, s')"
    and np: "\<not> in_pre s"
    and ix: "width_spec_index s' = width_spec_index s"
    and ex: "end_x s = Some ex"
  shows "\<exists>ops bxs. blocks = Some bxs \<and> all_ops s' = all_ops s @ ops \<and>
           list_all2 (fitted ts fnt col (split_on (CHR '' '') (compact_whitespace t)) ex) ops bxs"
proof -
  from r np obtain bxs where
    w: "wrap_lines ts fnt col eb (split_on (CHR '' '') (compact_whitespace t)) 0 [] s
          = Inr (bxs, s')" and b: "blocks = Some bxs"
    by (auto simp: render_text_def split: if_splits sum.splits)
  from wrap_lines_fitted[OF w ix ex] b show ?thesis
    by auto
qed

text \<open>
  Once the last entry of the width-spec is active the index stays, so the runs of a
  document with a width-spec of one entry are all of this kind.
\<close>

lemma apply_width_spec_last:
  "int (length (store s (width_spec s))) \<le> width_spec_index s + 1 \<Longrightarrow>
     apply_width_spec h s = Inr s"
  by (simp add: apply_width_spec_def Let_def)

lemma place_fragment_last:
  assumes pf: "place_fragment ts fnt col parts i s = Inr (e, bx, s')"
    and l: "int (length (store s (width_spec s))) \<le> width_spec_index s + 1"
  shows "width_spec_index s' = width_spec_index s"
proof -
  from pf obtain h s1 where e: "ensure_image h s = Inr (True, s1)"
    and i: "width_spec_index s' = width_spec_index s1"
    by (auto simp: place_fragment_def Let_def draw_on_def
        split: option.splits sum.splits prod.splits if_splits)
  from ensure_image_column[OF e] apply_width_spec_last[OF l, of h] i show ?thesis
    by auto
qed

lemma wrap_lines_last:
  assumes "wrap_lines ts fnt col eb parts i blocks s = Inr (b, s')"
    and "int (length (store s (width_spec s))) \<le> width_spec_index s + 1"
  shows "width_spec_index s' = width_spec_index s"
  using assms
proof (induction ts fnt col eb parts i blocks s rule: wrap_lines.induct)
  case (1 ts fnt col end_block parts start_index blocks s)
  show ?case
  proof (cases "start_index < length parts")
    case False
    with "1.prems"(1) show ?thesis
      by (simp add: wrap_lines.simps)
  next
    case True
    with "1.prems"(1) obtain e bx s3 where
      pf: "place_fragment ts fnt col parts start_index s = Inr (e, bx, s3)"
      by (subst (asm) wrap_lines.simps) (auto split: sum.splits)
    note i3 = place_fragment_last[OF pf "1.prems"(2)]
    note k3 = sameD[OF place_fragment_same[OF pf]]
    show ?thesis
    proof (cases "e < length parts")
      case lt: True
      with "1.prems"(1) True pf obtain s4 where
        nl: "newline (-1) s3 = Inr s4" and
        rec: "wrap_lines ts fnt col end_block parts e (blocks @ [bx]) s4 = Inr (b, s')"
        by (subst (asm) wrap_lines.simps) (auto split: sum.splits)
      note c4 = newline_column[OF nl]
      note k4 = sameD[OF newline_same[OF nl]]
      from "1.prems"(2) i3 k3(5,6) k4(5,6) c4
      have "int (length (store s4 (width_spec s4))) \<le> width_spec_index s4 + 1"
        by simp
      from "1.IH"[OF True pf refl refl lt nl rec this] c4 i3 show ?thesis
        by simp
    next
      case False
      with "1.prems"(1) True pf have "width_spec_index s' = width_spec_index s3"
        by (subst (asm) wrap_lines.simps)
           (auto split: sum.splits if_splits dest!: newline_column)
      with i3 show ?thesis
        by simp
    qed
  qed
qed

lemma render_text_last:
  assumes r: "render_text ts (Some t) col eb fnt s = Inr (blocks, s')"
    and np: "\<not> in_pre s"
    and l: "int (length (store s (width_spec s))) \<le> width_spec_index s + 1"
  shows "width_spec_index s' = width_spec_index s"
proof -
  from r np obtain bxs where
    "wrap_lines ts fnt col eb (split_on (CHR '' '') (compact_whitespace t)) 0 [] s
          = Inr (bxs, s')"
    by (auto simp: render_text_def split: if_splits sum.splits)
  from wrap_lines_last[OF this l] show ?thesis .
qed

lemma render_text_fitted_last_entry:
  assumes r: "render_text ts (Some t) col eb fnt s = Inr (blocks, s')"
    and np: "\<not> in_pre s"
    and l: "int (length (store s (width_spec s))) \<le> width_spec_index s + 1"
    and ex: "end_x s = Some ex"
  shows "\<exists>ops bxs. blocks = Some bxs \<and> all_ops s' = all_ops s @ ops \<and>
           list_all2 (fitted ts fnt col (split_on (CHR '' '') (compact_whitespace t)) ex) ops bxs"
  using render_text_fitted[OF r np render_text_last[OF r np l] ex] .

lemma render_text_fitted_example:
  "\<exists>s' ops.
     render_text (fixed_pitch 6 12) (Some ''the quick brown fox jumps over the lazy dog'')
       (color default_config) True DefaultFont first_chunk_engine
     = Inr (Some [(0, 0, 180, 12), (0, 12, 72, 12)], s') \<and>
     all_ops s' = ops \<and>
     list_all2 (fitted (fixed_pitch 6 12) DefaultFont (color default_config) fox_parts 200)
       ops [(0, 0, 180, 12), (0, 12, 72, 12)]"
proof -
  let ?r = "render_text (fixed_pitch 6 12) (Some ''the quick brown fox jumps over the lazy dog'')
              (color default_config) True DefaultFont first_chunk_engine"
  have b: "map_sum id fst ?r = Inr (Some [(0, 0, 180, 12), (0, 12, 72, 12)])"
    by code_simp
  have i: "map_sum id (width_spec_index \<circ> snd) ?r = Inr 0"
    by code_simp
  from b obtain s' where r: "?r = Inr (Some [(0, 0, 180, 12), (0, 12, 72, 12)], s')"
    by (cases ?r) auto
  have p: "split_on (CHR '' '') (compact_whitespace ''the quick brown fox jumps over the lazy dog'')
           = fox_parts"
    by code_simp
  have e: "\<not> in_pre first_chunk_engine" "width_spec_index first_chunk_engine = 0"
    "end_x first_chunk_engine = Some 200" "all_ops first_chunk_engine = []"
    by (simp_all add: first_chunk_engine_def all_ops_def)
  from i r e(2) have ix: "width_spec_index s' = width_spec_index first_chunk_engine"
    by simp
  from render_text_fitted[OF r e(1) ix e(3)] p e(4) r show ?thesis
    by auto
qed

text \<open>
  Claim C5 says that in normal mode no drawn fragment is wider than \<open>end_x\<close> minus the
  cursor at which it is drawn, a single word that does not fit apart. A fragment is
  fitted against the edge in force before its draw request, and the request may install
  the next entry of the width-spec before the fragment is drawn. After 18 paragraphs \<open>x\<close>
  the cursor is at \<open>y = 504\<close> with the first entry \<open>(0, 0, 200)\<close> still active. The pass for
  the next paragraph fits six words, 180 wide, at \<open>x = 0\<close> against the edge 200; its draw
  request installs \<open>(500, 100, 50)\<close>, and the six words are drawn at \<open>(0, 504)\<close> while
  \<open>end_x\<close> is 150. The lines after it are fitted to the second column. The line at
  \<open>y = 504\<close> is past the breakpoint 500, so by the description of \<open>width_spec\<close> at \<open>md2png\<close>
  the second entry was to be used for it.
\<close>

theorem fragment_wider_than_column_at_switch:
  "(case handle_children default_config (fixed_pitch 6 12) (replicate 18 short_par)
          two_column_engine of
      Inl e \<Rightarrow> Inl e
    | Inr s \<Rightarrow>
        map_sum id (\<lambda>(end_index, bx, s'). (image_x s, end_x s, end_index, bx, end_x s'))
          (place_fragment (fixed_pitch 6 12) DefaultFont (color default_config) fox_parts 0 s))
   = Inr (0, Some 200, 6, (0, 504, 180, 12), Some 150) \<and>
   map_sum id (filter (\<lambda>(x, y, t). 500 \<le> y) \<circ> drawn_texts \<circ> snd)
     (md2png default_config (fixed_pitch 6 12) wrap_switch_doc 0
        (const_store [(0, 0, 200), (500, 100, 50)]))
   = Inr [(0, 504, ''the quick brown fox jumps over''), (100, 516, ''the lazy''),
          (100, 528, ''dog''), (118, 528, '' '')] \<and>
   split_on (CHR '' '') (compact_whitespace ''the quick brown fox jumps over the lazy dog'')
   = fox_parts \<and>
   fst (fixed_pitch 6 12 DefaultFont ''the quick brown fox jumps over'') = 180 \<and>
   (180::int) > 150 - 0"
proof (intro conjI)
  show "(case handle_children default_config (fixed_pitch 6 12) (replicate 18 short_par)
          two_column_engine of
      Inl e \<Rightarrow> Inl e
    | Inr s \<Rightarrow>
        map_sum id (\<lambda>(end_index, bx, s'). (image_x s, end_x s, end_index, bx, end_x s'))
          (place_fragment (fixed_pitch 6 12) DefaultFont (color default_config) fox_parts 0 s))
   = Inr (0, Some 200, 6, (0, 504, 180, 12), Some 150)"
    by code_simp
  show "map_sum id (filter (\<lambda>(x, y, t). 500 \<le> y) \<circ> drawn_texts \<circ> snd)
     (md2png default_config (fixed_pitch 6 12) wrap_switch_doc 0
        (const_store [(0, 0, 200), (500, 100, 50)]))
   = Inr [(0, 504, ''the quick brown fox jumps over''), (100, 516, ''the lazy''),
          (100, 528, ''dog''), (118, 528, '' '')]"
    by code_simp
  show "split_on (CHR '' '') (compact_whitespace ''the quick brown fox jumps over the lazy dog'')
   = fox_parts"
    by code_simp
  show "fst (fixed_pitch 6 12 DefaultFont ''the quick brown fox jumps over'') = 180"
    by code_simp
qed simp

subsection \<open>The link map\<close>

text \<open>
  An anchor is encountered when the walk calls \<open>handle_node\<close> on it. An anchor below a
  heading is not: \<open>handle_h\<close> renders the heading's own text and never handles its children,
  so such an anchor leaves no entry in the link map.
\<close>

lemma anchor_below_heading_not_encountered:
  "map_sum id (links \<circ> snd)
     (md2png default_config (fixed_pitch 6 12)
        (Node ''div'' None None []
           [Node ''h3'' (Some ''Head '') (Some [CHR 0x0A]) []
              [Node ''a'' (Some ''link'') None [(''href'', ''u'')] []]])
        0 (const_store [(0, 0, 200)]))
   = Inr []"
  by code_simp

text \<open>
  Claim C3, as the code has it. Every anchor encountered, that is every anchor on which
  \<open>handle_node\<close> runs, that has an \<open>href\<close> attribute adds one entry to the link map: the
  target and the boxes that \<open>render_text\<close> returns for the anchor's own leading text
  (\<open>None\<close> if it has none). The entry is complete before the children are handled; what
  follows it in the link map are the entries of anchors among the descendants, and the
  boxes of the children's text and of the tail are recorded nowhere. An encountered anchor
  without \<open>href\<close> adds no entry of its own.
\<close>

theorem anchor_link_entry:
  assumes h: "handle_node cfg ts (Node ''a'' txt tail attrib ch) s = Inr s'"
  shows "case map_of attrib ''href'' of
           Some href \<Rightarrow>
             (\<exists>blocks s1 s2 rest.
                render_text ts txt (link_color cfg) False DefaultFont s = Inr (blocks, s1) \<and>
                handle_children cfg ts ch (s1\<lparr>links := links s @ [(href, blocks)]\<rparr>) = Inr s2 \<and>
                links s2 = links s @ (href, blocks) # rest \<and> links s' = links s2)
         | None \<Rightarrow>
             (\<exists>blocks s1 s2.
                render_text ts txt (color cfg) False DefaultFont s = Inr (blocks, s1) \<and>
                links s1 = links s \<and>
                handle_children cfg ts ch s1 = Inr s2 \<and> links s' = links s2)"
proof -
  let ?n = "Node ''a'' txt tail attrib ch"
  from h have "handle_a cfg ts ?n (handle_children cfg ts ch) s = Inr s'"
    by (simp add: handle_node.simps handlers_def)
  then obtain t1 t2 where
    own: "(case map_of (node_attrib ?n) ''href'' of
                 Some href \<Rightarrow>
                   (case render_text ts (node_text ?n) (link_color cfg) False DefaultFont s of
                      Inl e \<Rightarrow> Inl e
                    | Inr (blocks, s1) \<Rightarrow> Inr (s1\<lparr>links := links s1 @ [(href, blocks)]\<rparr>))
               | None \<Rightarrow> render_text_stmt ts (node_text ?n) (color cfg) False DefaultFont s)
          = Inr t1" and
    kids: "handle_children cfg ts ch t1 = Inr t2" and
    tl: "render_text_stmt ts (node_tail ?n) (color cfg) False DefaultFont t2 = Inr s'"
    unfolding handle_a_def by (elim thnE)
  from sameD(7)[OF render_text_stmt_same[OF tl]] have last: "links s' = links t2" .
  from frameD(10)[OF walk_frame_children[OF kids]] obtain rest where
    rest: "links t2 = links t1 @ rest" ..
  show ?thesis
  proof (cases "map_of attrib ''href''")
    case None
    with own have "render_text_stmt ts txt (color cfg) False DefaultFont s = Inr t1"
      by simp
    then obtain blocks where
      r: "render_text ts txt (color cfg) False DefaultFont s = Inr (blocks, t1)"
      by (cases "render_text ts txt (color cfg) False DefaultFont s")
         (auto simp: render_text_stmt_def)
    from sameD(7)[OF render_text_same[OF r]] r kids last None show ?thesis
      by auto
  next
    case (Some href)
    with own have "(case render_text ts txt (link_color cfg) False DefaultFont s of
                      Inl e \<Rightarrow> Inl e
                    | Inr (blocks, s1) \<Rightarrow> Inr (s1\<lparr>links := links s1 @ [(href, blocks)]\<rparr>))
                   = Inr t1"
      by simp
    then obtain blocks s1 where
      r: "render_text ts txt (link_color cfg) False DefaultFont s = Inr (blocks, s1)" and
      t1: "t1 = s1\<lparr>links := links s1 @ [(href, blocks)]\<rparr>"
      by (auto split: sum.splits)
    from sameD(7)[OF render_text_same[OF r]] have l1: "links s1 = links s" .
    from kids have "handle_children cfg ts ch (s1\<lparr>links := links s @ [(href, blocks)]\<rparr>) = Inr t2"
      by (simp add: t1 l1)
    moreover from rest have "links t2 = links s @ (href, blocks) # rest"
      by (simp add: t1 l1)
    ultimately show ?thesis
      using r last Some by auto
  qed
qed

theorem anchor_link_entry_witness:
  "\<exists>s'. handle_node default_config (fixed_pitch 6 12)
           (Node ''a'' (Some ''click'') None [(''href'', ''http://x'')]
              [Node ''em'' (Some ''here'') None [] []]) first_chunk_engine = Inr s' \<and>
        links s' = [(''http://x'', Some [(0, 0, 30, 12)])]"
proof -
  let ?r = "handle_node default_config (fixed_pitch 6 12)
           (Node ''a'' (Some ''click'') None [(''href'', ''http://x'')]
              [Node ''em'' (Some ''here'') None [] []]) first_chunk_engine"
  have l: "map_sum id links ?r = Inr [(''http://x'', Some [(0, 0, 30, 12)])]"
    by code_simp
  then obtain s' where r: "?r = Inr s'"
    by (cases ?r) auto
  from anchor_link_entry[OF r] obtain blocks rest where
    "links s' = links first_chunk_engine @ (''http://x'', blocks) # rest"
    by auto
  with l r have "links s' = [(''http://x'', Some [(0, 0, 30, 12)])]"
    by simp
  with r show ?thesis
    by blast
qed

text \<open>
  The anchor \<open>click\<close> with the emphasised child \<open>here\<close>: both texts are drawn, the second at
  \<open>x = 30\<close>, and the entry of the link holds the box of the first only.
\<close>

theorem nested_text_not_in_link_entry:
  "map_sum id (links \<circ> snd)
     (md2png default_config (fixed_pitch 6 12) link_doc 0 (const_store [(0, 0, 200)]))
   = Inr [(''http://x'', Some [(0, 0, 30, 12)])] \<and>
   map_sum id (drawn_texts \<circ> snd)
     (md2png default_config (fixed_pitch 6 12) link_doc 0 (const_store [(0, 0, 200)]))
   = Inr [(0, 0, ''click''), (30, 0, ''here'')]"
proof
  show "map_sum id (links \<circ> snd)
     (md2png default_config (fixed_pitch 6 12) link_doc 0 (const_store [(0, 0, 200)]))
   = Inr [(''http://x'', Some [(0, 0, 30, 12)])]"
    by code_simp
  show "map_sum id (drawn_texts \<circ> snd)
     (md2png default_config (fixed_pitch 6 12) link_doc 0 (const_store [(0, 0, 200)]))
   = Inr [(0, 0, ''click''), (30, 0, ''here'')]"
    by code_simp
qed

end
